theory Spec2Isabelle
  imports Main "HOL-Library.Word" "HOL-Library.Multiset"
begin

section \<open>Elastic B-Tree: the tree engine of \<^verbatim>\<open>internal/tree\<close>\<close>

text \<open>
  The Go package keeps a B-tree as a graph of heap nodes: every node holds slices of keys,
  values and child pointers, and a \<^verbatim>\<open>Parent\<close> back pointer that the deletion path follows
  upwards. The embedding therefore keeps an explicit store: the field \<open>nodes\<close> of the tree
  is the list of all nodes ever allocated, an address is an index into it, and a pointer
  is an \<open>addr option\<close> (\<open>None\<close> is \<^verbatim>\<open>nil\<close>).

  \<^item> Keys are Go \<^verbatim>\<open>int\<close>s on a 64-bit platform: \<open>64 word\<close>. The default comparator
    \<^verbatim>\<open>a - b\<close> wraps around, and its sign is read with \<open>sint\<close>.
  \<^item> Counters and indexes (\<^verbatim>\<open>Size\<close>, \<^verbatim>\<open>Degree\<close>, \<^verbatim>\<open>Height\<close>, \<^verbatim>\<open>MinKeys\<close>, \<^verbatim>\<open>MaxKeys\<close>, loop
    indexes) are \<open>int\<close>: they count nodes and keys held in memory and stay far from
    \<open>2 ^ 63\<close>.
  \<^item> A value is an \<^verbatim>\<open>interface{}\<close>: \<open>'v option\<close>, \<open>None\<close> being the nil interface.
  \<^item> A panic (of \<^verbatim>\<open>Logger.Panicf\<close> or of the Go runtime) is the left injection of a sum.
  \<^item> Recursion over the node graph takes fuel, since the graph may be cyclic;
    \<open>OutOfFuel\<close> stands for a recursion that did not end within the fuel given.
  \<^item> Slice capacity is not tracked: re-slicing beyond the length, which Go allows up to
    the capacity, is the panic \<open>SliceBounds\<close>. Distinct nodes own distinct backing arrays.
  \<^item> The lock and the log output are not modelled; the logger is taken to be non-nil. The
    arguments of a log call are still evaluated, so a nil dereference in them is kept.
\<close>

type_synonym goint = "64 word"
type_synonym addr = nat

datatype panic =
    LoggerPanic string
  | IndexOutOfRange
  | SliceBounds
  | NilDeref
  | MakeSliceLen
  | OutOfFuel

type_synonym 'a res = "panic + 'a"

definition andThen :: "'a res \<Rightarrow> ('a \<Rightarrow> 'b res) \<Rightarrow> 'b res" where
  "andThen m f = (case m of Inl e \<Rightarrow> Inl e | Inr x \<Rightarrow> f x)"

record 'v Node =
  Keys :: "goint list"
  Children :: "addr option list"
  IsLeaf :: bool
  Parent :: "addr option"
  Size :: int
  MaxKeys :: int
  MinKeys :: int
  Values :: "'v option list"

record 'v Tree =
  Root :: "addr option"
  Degree :: int
  Size :: int
  Height :: int
  Comparator :: "goint \<Rightarrow> goint \<Rightarrow> goint"
  nodes :: "'v Node list"

subsection \<open>Slices and pointers\<close>

definition idx :: "'a list \<Rightarrow> int \<Rightarrow> 'a res" where
  "idx xs i = (if 0 \<le> i \<and> i < int (length xs) then Inr (xs ! nat i) else Inl IndexOutOfRange)"

definition setIdx :: "'a list \<Rightarrow> int \<Rightarrow> 'a \<Rightarrow> 'a list res" where
  "setIdx xs i v =
     (if 0 \<le> i \<and> i < int (length xs) then Inr (xs[nat i := v]) else Inl IndexOutOfRange)"

definition sliceTo :: "'a list \<Rightarrow> int \<Rightarrow> 'a list res" where
  "sliceTo xs j = (if 0 \<le> j \<and> j \<le> int (length xs) then Inr (take (nat j) xs) else Inl SliceBounds)"

definition sliceFrom :: "'a list \<Rightarrow> int \<Rightarrow> 'a list res" where
  "sliceFrom xs j = (if 0 \<le> j \<and> j \<le> int (length xs) then Inr (drop (nat j) xs) else Inl SliceBounds)"

text \<open>\<^verbatim>\<open>append(xs[:j], append([]T{x}, xs[j:]...)...)\<close>\<close>

definition insertAt :: "'a list \<Rightarrow> int \<Rightarrow> 'a \<Rightarrow> 'a list res" where
  "insertAt xs j x =
     andThen (sliceTo xs j) (\<lambda>front.
     andThen (sliceFrom xs j) (\<lambda>back. Inr (front @ [x] @ back)))"

text \<open>\<^verbatim>\<open>append(xs[:i], xs[i+1:]...)\<close>\<close>

definition removeAt :: "'a list \<Rightarrow> int \<Rightarrow> 'a list res" where
  "removeAt xs i =
     andThen (sliceTo xs i) (\<lambda>front.
     andThen (sliceFrom xs (i + 1)) (\<lambda>back. Inr (front @ back)))"

definition makeSlice :: "int \<Rightarrow> 'a \<Rightarrow> 'a list res" where
  "makeSlice n z = (if n < 0 then Inl MakeSliceLen else Inr (replicate (nat n) z))"

text \<open>\<^verbatim>\<open>copy(dst, src)\<close> overwrites the first \<open>min (len dst) (len src)\<close> elements of \<open>dst\<close>.\<close>

definition copySlice :: "'a list \<Rightarrow> 'a list \<Rightarrow> 'a list" where
  "copySlice dst src = take (length dst) src @ drop (length src) dst"

text \<open>The index of the first element equal to \<open>x\<close>, or \<open>-1\<close>: the \<^verbatim>\<open>range\<close> loops that look
  a node up among its parent's children.\<close>

fun indexOf :: "'a list \<Rightarrow> 'a \<Rightarrow> int" where
  "indexOf [] x = - 1"
| "indexOf (y # ys) x =
     (if y = x then 0 else (let r = indexOf ys x in if r < 0 then - 1 else r + 1))"

definition rd :: "'v Tree \<Rightarrow> addr option \<Rightarrow> 'v Node res" where
  "rd t p =
     (case p of None \<Rightarrow> Inl NilDeref
      | Some a \<Rightarrow> if a < length (nodes t) then Inr (nodes t ! a) else Inl NilDeref)"

definition upd :: "'v Tree \<Rightarrow> addr option \<Rightarrow> ('v Node \<Rightarrow> 'v Node) \<Rightarrow> 'v Tree res" where
  "upd t p f =
     (case p of None \<Rightarrow> Inl NilDeref
      | Some a \<Rightarrow>
          if a < length (nodes t) then Inr (t\<lparr>nodes := (nodes t)[a := f (nodes t ! a)]\<rparr>)
          else Inl NilDeref)"

definition alloc :: "'v Tree \<Rightarrow> 'v Node \<Rightarrow> addr option \<times> 'v Tree" where
  "alloc t n = (Some (length (nodes t)), t\<lparr>nodes := nodes t @ [n]\<rparr>)"

text \<open>A \<^verbatim>\<open>range\<close> loop whose body only checks, and one whose body writes.\<close>

fun forEach :: "'a list \<Rightarrow> ('a \<Rightarrow> unit res) \<Rightarrow> unit res" where
  "forEach [] f = Inr ()"
| "forEach (x # xs) f = andThen (f x) (\<lambda>_. forEach xs f)"

fun forEachUpd :: "'a list \<Rightarrow> 's \<Rightarrow> ('s \<Rightarrow> 'a \<Rightarrow> 's res) \<Rightarrow> 's res" where
  "forEachUpd [] s f = Inr s"
| "forEachUpd (x # xs) s f = andThen (f s x) (\<lambda>s'. forEachUpd xs s' f)"

text \<open>\<^verbatim>\<open>for _, c := range cs { c.Parent = p }\<close>\<close>

definition reparent :: "'v Tree \<Rightarrow> addr option list \<Rightarrow> addr option \<Rightarrow> 'v Tree res" where
  "reparent t cs p = forEachUpd cs t (\<lambda>t c. upd t c (\<lambda>n. n\<lparr>Parent := p\<rparr>))"

subsection \<open>invariants.go\<close>

fun checkInvariants :: "nat \<Rightarrow> 'v Tree \<Rightarrow> addr option \<Rightarrow> unit res" where
  "checkInvariants 0 t node = Inl OutOfFuel"
| "checkInvariants (Suc fuel) t node =
     (if node = None then Inr ()
      else
        andThen (rd t node) (\<lambda>n.
        if \<not> IsLeaf n then
          if int (length (Children n)) \<noteq> Node.Size n + 1
          then Inl (LoggerPanic ''Invariant violation: node %v has %d keys but %d children (expected %d)'')
          else forEach (Children n) (\<lambda>child. checkInvariants fuel t child)
        else Inr ()))"

subsection \<open>tree.go: construction\<close>

definition NewTree :: "int \<Rightarrow> 'v Tree res" where
  "NewTree degree =
     (if degree < 2 then Inl (LoggerPanic ''degree must be at least 2'')
      else Inr \<lparr>Root = None, Degree = degree, Size = 0, Height = 0,
                Comparator = (\<lambda>a b. a - b), nodes = []\<rparr>)"

subsection \<open>tree.go: insertion\<close>

definition normalizeChildren :: "'v Tree \<Rightarrow> addr option \<Rightarrow> 'v Tree res" where
  "normalizeChildren t node =
     andThen (rd t node) (\<lambda>n.
     if IsLeaf n then Inr t
     else
       let expected = Node.Size n + 1 in
       if int (length (Children n)) \<noteq> expected then
         andThen (makeSlice expected None) (\<lambda>newChildren.
         andThen (sliceTo (Children n) expected) (\<lambda>src.
         upd t node (\<lambda>n. n\<lparr>Children := copySlice newChildren src\<rparr>)))
       else Inr t)"

definition splitChild :: "nat \<Rightarrow> 'v Tree \<Rightarrow> addr option \<Rightarrow> int \<Rightarrow> 'v Tree res" where
  "splitChild fuel t parent index =
     andThen (rd t parent) (\<lambda>p.
     andThen (idx (Children p) index) (\<lambda>child.
     andThen (rd t child) (\<lambda>_.
     andThen (checkInvariants fuel t child) (\<lambda>_.
     andThen (normalizeChildren t parent) (\<lambda>t.
     andThen (rd t child) (\<lambda>c.
     andThen (idx (Keys c) (Degree t - 1)) (\<lambda>medianKey.
     andThen (idx (Values c) (Degree t - 1)) (\<lambda>medianValue.
     andThen (makeSlice (Degree t - 1) 0) (\<lambda>newKeys.
     andThen (makeSlice (Degree t - 1) None) (\<lambda>newValues.
     let (newChild, t) = alloc t
           \<lparr>Keys = newKeys, Children = [], IsLeaf = IsLeaf c, Parent = parent,
            Node.Size = Degree t - 1, MaxKeys = 2 * Degree t - 1, MinKeys = Degree t - 1,
            Values = newValues\<rparr> in
     andThen (sliceFrom (Keys c) (Degree t)) (\<lambda>upperKeys.
     andThen (sliceFrom (Values c) (Degree t)) (\<lambda>upperValues.
     andThen (upd t newChild (\<lambda>n. n\<lparr>Keys := copySlice (Keys n) upperKeys,
                                      Values := copySlice (Values n) upperValues\<rparr>)) (\<lambda>t.
     andThen (if \<not> IsLeaf c then
                andThen (sliceFrom (Children c) (Degree t)) (\<lambda>upperChildren.
                andThen (upd t newChild (\<lambda>n. n\<lparr>Children := Children n @ upperChildren\<rparr>)) (\<lambda>t.
                reparent t upperChildren newChild))
              else Inr t) (\<lambda>t.
     andThen (rd t child) (\<lambda>c.
     andThen (sliceTo (Keys c) (Degree t - 1)) (\<lambda>lowerKeys.
     andThen (sliceTo (Values c) (Degree t - 1)) (\<lambda>lowerValues.
     andThen (upd t child (\<lambda>n. n\<lparr>Keys := lowerKeys, Values := lowerValues,
                                  Node.Size := Degree t - 1\<rparr>)) (\<lambda>t.
     andThen (if \<not> IsLeaf c then
                andThen (sliceTo (Children c) (Degree t)) (\<lambda>lowerChildren.
                upd t child (\<lambda>n. n\<lparr>Children := lowerChildren\<rparr>))
              else Inr t) (\<lambda>t.
     andThen (rd t parent) (\<lambda>p.
     andThen (insertAt (Keys p) index medianKey) (\<lambda>pKeys.
     andThen (insertAt (Values p) index medianValue) (\<lambda>pValues.
     andThen (insertAt (Children p) (index + 1) newChild) (\<lambda>pChildren.
     andThen (upd t parent (\<lambda>n. n\<lparr>Keys := pKeys, Values := pValues, Children := pChildren,
                                   Node.Size := int (length pKeys)\<rparr>)) (\<lambda>t.
     andThen (normalizeChildren t parent) (\<lambda>t.
     andThen (checkInvariants fuel t child) (\<lambda>_.
     andThen (checkInvariants fuel t newChild) (\<lambda>_.
     andThen (checkInvariants fuel t parent) (\<lambda>_.
     Inr t))))))))))))))))))))))))))))"

text \<open>\<^verbatim>\<open>for i >= 0 && cmp(keys[i], key) > 0 { i-- }\<close>\<close>

function scanDown :: "(goint \<Rightarrow> goint \<Rightarrow> goint) \<Rightarrow> goint list \<Rightarrow> goint \<Rightarrow> int \<Rightarrow> int res" where
  "scanDown cmp ks key i =
     (if i \<ge> 0 then
        andThen (idx ks i) (\<lambda>k.
        if sint (cmp k key) > 0 then scanDown cmp ks key (i - 1) else Inr i)
      else Inr i)"
  by pat_completeness auto
termination
  by (relation "measure (\<lambda>(cmp, ks, key, i). nat (i + 1))") auto

text \<open>\<^verbatim>\<open>for i < size && cmp(keys[i], key) < 0 { i++ }\<close>\<close>

function scanUp :: "(goint \<Rightarrow> goint \<Rightarrow> goint) \<Rightarrow> goint list \<Rightarrow> goint \<Rightarrow> int \<Rightarrow> int \<Rightarrow> int res" where
  "scanUp cmp ks key sz i =
     (if i < sz then
        andThen (idx ks i) (\<lambda>k.
        if sint (cmp k key) < 0 then scanUp cmp ks key sz (i + 1) else Inr i)
      else Inr i)"
  by pat_completeness auto
termination
  by (relation "measure (\<lambda>(cmp, ks, key, sz, i). nat (sz - i))") auto

declare scanDown.simps [simp del] scanUp.simps [simp del]

fun insertNonFull :: "nat \<Rightarrow> 'v Tree \<Rightarrow> addr option \<Rightarrow> goint \<Rightarrow> 'v option \<Rightarrow> 'v Tree res" where
  "insertNonFull 0 t node key value = Inl OutOfFuel"
| "insertNonFull (Suc fuel) t node key value =
     andThen (rd t node) (\<lambda>n.
     if IsLeaf n then
       andThen (scanDown (Comparator t) (Keys n) key (Node.Size n - 1)) (\<lambda>i.
       andThen (insertAt (Keys n) (i + 1) key) (\<lambda>ks.
       andThen (insertAt (Values n) (i + 1) value) (\<lambda>vs.
       upd t node (\<lambda>n. n\<lparr>Keys := ks, Values := vs, Node.Size := Node.Size n + 1\<rparr>))))
     else
       andThen (scanDown (Comparator t) (Keys n) key (Node.Size n - 1)) (\<lambda>i.
       let i = i + 1 in
       andThen (idx (Children n) i) (\<lambda>c.
       andThen (rd t c) (\<lambda>cn.
       if Node.Size cn = MaxKeys cn then
         andThen (splitChild fuel t node i) (\<lambda>t.
         andThen (rd t node) (\<lambda>n.
         andThen (idx (Keys n) i) (\<lambda>k.
         let i = (if sint (Comparator t k key) < 0 then i + 1 else i) in
         andThen (idx (Children n) i) (\<lambda>c.
         insertNonFull fuel t c key value))))
       else insertNonFull fuel t c key value))))"

definition Insert :: "nat \<Rightarrow> 'v Tree \<Rightarrow> goint \<Rightarrow> 'v option \<Rightarrow> 'v Tree res" where
  "Insert fuel t key value =
     (if Root t = None then
        let (root, t) = alloc t
              \<lparr>Keys = [key], Children = [], IsLeaf = True, Parent = None, Node.Size = 1,
               MaxKeys = 2 * Degree t - 1, MinKeys = Degree t - 1, Values = [value]\<rparr>
        in Inr (t\<lparr>Root := root, Tree.Size := Tree.Size t + 1, Height := 1\<rparr>)
      else
        andThen (checkInvariants fuel t (Root t)) (\<lambda>_.
        andThen (rd t (Root t)) (\<lambda>r.
        andThen (if Node.Size r = MaxKeys r then
                   let (newRoot, t) = alloc t
                         \<lparr>Keys = [], Children = [Root t], IsLeaf = False, Parent = None, Node.Size = 0,
                          MaxKeys = 2 * Degree t - 1, MinKeys = Degree t - 1, Values = []\<rparr> in
                   andThen (upd t (Root t) (\<lambda>n. n\<lparr>Parent := newRoot\<rparr>)) (\<lambda>t.
                   andThen (splitChild fuel t newRoot 0) (\<lambda>t.
                   Inr (t\<lparr>Root := newRoot, Height := Height t + 1\<rparr>)))
                 else Inr t) (\<lambda>t.
        andThen (insertNonFull fuel t (Root t) key value) (\<lambda>t.
        let t = t\<lparr>Tree.Size := Tree.Size t + 1\<rparr> in
        andThen (checkInvariants fuel t (Root t)) (\<lambda>_.
        Inr t))))))"

subsection \<open>tree.go: search\<close>

fun searchNode :: "nat \<Rightarrow> 'v Tree \<Rightarrow> addr option \<Rightarrow> goint \<Rightarrow> ('v option \<times> bool) res" where
  "searchNode 0 t node key = Inl OutOfFuel"
| "searchNode (Suc fuel) t node key =
     (if node = None then Inr (None, False)
      else
        andThen (rd t node) (\<lambda>n.
        andThen (scanUp (Comparator t) (Keys n) key (Node.Size n) 0) (\<lambda>i.
        andThen (if i < Node.Size n
                 then andThen (idx (Keys n) i) (\<lambda>k. Inr (Comparator t k key = 0))
                 else Inr False) (\<lambda>found.
        if found then andThen (idx (Values n) i) (\<lambda>v. Inr (v, True))
        else if IsLeaf n then Inr (None, False)
        else andThen (idx (Children n) i) (\<lambda>c. searchNode fuel t c key)))))"

definition Search :: "nat \<Rightarrow> 'v Tree \<Rightarrow> goint \<Rightarrow> ('v option \<times> bool) res" where
  "Search fuel t key = searchNode fuel t (Root t) key"

subsection \<open>balance.go\<close>

definition borrowFromLeftSibling :: "nat \<Rightarrow> 'v Tree \<Rightarrow> addr option \<Rightarrow> int \<Rightarrow> 'v Tree res" where
  "borrowFromLeftSibling fuel t parent index =
     andThen (rd t parent) (\<lambda>p.
     if index \<le> 0 \<or> index \<ge> int (length (Children p))
     then Inl (LoggerPanic ''borrowFromLeftSibling: invalid parameters, index %d, parent.Children %d'')
     else
       andThen (idx (Children p) index) (\<lambda>node.
       andThen (idx (Children p) (index - 1)) (\<lambda>leftSibling.
       andThen (rd t node) (\<lambda>_.
       andThen (rd t leftSibling) (\<lambda>_.
       andThen (idx (Keys p) (index - 1)) (\<lambda>sepKey.
       andThen (upd t node (\<lambda>n. n\<lparr>Keys := sepKey # Keys n\<rparr>)) (\<lambda>t.
       andThen (rd t parent) (\<lambda>p.
       andThen (idx (Values p) (index - 1)) (\<lambda>sepValue.
       andThen (upd t node (\<lambda>n. n\<lparr>Values := sepValue # Values n\<rparr>)) (\<lambda>t.
       andThen (upd t node (\<lambda>n. n\<lparr>Node.Size := Node.Size n + 1\<rparr>)) (\<lambda>t.
       andThen (rd t leftSibling) (\<lambda>l.
       andThen (idx (Keys l) (Node.Size l - 1)) (\<lambda>lastKey.
       andThen (rd t parent) (\<lambda>p.
       andThen (setIdx (Keys p) (index - 1) lastKey) (\<lambda>pKeys.
       andThen (upd t parent (\<lambda>n. n\<lparr>Keys := pKeys\<rparr>)) (\<lambda>t.
       andThen (rd t leftSibling) (\<lambda>l.
       andThen (idx (Values l) (Node.Size l - 1)) (\<lambda>lastValue.
       andThen (rd t parent) (\<lambda>p.
       andThen (setIdx (Values p) (index - 1) lastValue) (\<lambda>pValues.
       andThen (upd t parent (\<lambda>n. n\<lparr>Values := pValues\<rparr>)) (\<lambda>t.
       andThen (rd t leftSibling) (\<lambda>l.
       andThen (sliceTo (Keys l) (Node.Size l - 1)) (\<lambda>lKeys.
       andThen (upd t leftSibling (\<lambda>n. n\<lparr>Keys := lKeys\<rparr>)) (\<lambda>t.
       andThen (rd t leftSibling) (\<lambda>l.
       andThen (sliceTo (Values l) (Node.Size l - 1)) (\<lambda>lValues.
       andThen (upd t leftSibling (\<lambda>n. n\<lparr>Values := lValues\<rparr>)) (\<lambda>t.
       andThen (upd t leftSibling (\<lambda>n. n\<lparr>Node.Size := Node.Size n - 1\<rparr>)) (\<lambda>t.
       andThen (rd t node) (\<lambda>n.
       andThen (if \<not> IsLeaf n then
                  andThen (rd t leftSibling) (\<lambda>l.
                  andThen (idx (Children l) (Node.Size l)) (\<lambda>borrowedChild.
                  andThen (upd t node (\<lambda>n. n\<lparr>Children := borrowedChild # Children n\<rparr>)) (\<lambda>t.
                  andThen (upd t borrowedChild (\<lambda>n. n\<lparr>Parent := node\<rparr>)) (\<lambda>t.
                  andThen (rd t leftSibling) (\<lambda>l.
                  andThen (sliceTo (Children l) (Node.Size l + 1)) (\<lambda>lChildren.
                  upd t leftSibling (\<lambda>n. n\<lparr>Children := lChildren\<rparr>)))))))
                else Inr t) (\<lambda>t.
       andThen (rd t node) (\<lambda>_.
       andThen (rd t leftSibling) (\<lambda>_.
       andThen (checkInvariants fuel t parent) (\<lambda>_.
       Inr t)))))))))))))))))))))))))))))))))"

definition borrowFromRightSibling :: "'v Tree \<Rightarrow> addr option \<Rightarrow> int \<Rightarrow> 'v Tree res" where
  "borrowFromRightSibling t parent index =
     andThen (rd t parent) (\<lambda>p.
     andThen (idx (Children p) index) (\<lambda>node.
     andThen (idx (Children p) (index + 1)) (\<lambda>rightSibling.
     andThen (rd t node) (\<lambda>_.
     andThen (idx (Keys p) index) (\<lambda>sepKey.
     andThen (upd t node (\<lambda>n. n\<lparr>Keys := Keys n @ [sepKey]\<rparr>)) (\<lambda>t.
     andThen (rd t parent) (\<lambda>p.
     andThen (idx (Values p) index) (\<lambda>sepValue.
     andThen (upd t node (\<lambda>n. n\<lparr>Values := Values n @ [sepValue]\<rparr>)) (\<lambda>t.
     andThen (upd t node (\<lambda>n. n\<lparr>Node.Size := Node.Size n + 1\<rparr>)) (\<lambda>t.
     andThen (rd t rightSibling) (\<lambda>r.
     andThen (idx (Keys r) 0) (\<lambda>firstKey.
     andThen (rd t parent) (\<lambda>p.
     andThen (setIdx (Keys p) index firstKey) (\<lambda>pKeys.
     andThen (upd t parent (\<lambda>n. n\<lparr>Keys := pKeys\<rparr>)) (\<lambda>t.
     andThen (rd t rightSibling) (\<lambda>r.
     andThen (idx (Values r) 0) (\<lambda>firstValue.
     andThen (rd t parent) (\<lambda>p.
     andThen (setIdx (Values p) index firstValue) (\<lambda>pValues.
     andThen (upd t parent (\<lambda>n. n\<lparr>Values := pValues\<rparr>)) (\<lambda>t.
     andThen (rd t rightSibling) (\<lambda>r.
     andThen (sliceFrom (Keys r) 1) (\<lambda>rKeys.
     andThen (upd t rightSibling (\<lambda>n. n\<lparr>Keys := rKeys\<rparr>)) (\<lambda>t.
     andThen (rd t rightSibling) (\<lambda>r.
     andThen (sliceFrom (Values r) 1) (\<lambda>rValues.
     andThen (upd t rightSibling (\<lambda>n. n\<lparr>Values := rValues\<rparr>)) (\<lambda>t.
     andThen (upd t rightSibling (\<lambda>n. n\<lparr>Node.Size := Node.Size n - 1\<rparr>)) (\<lambda>t.
     andThen (rd t node) (\<lambda>n.
     if \<not> IsLeaf n then
       andThen (rd t rightSibling) (\<lambda>r.
       andThen (idx (Children r) 0) (\<lambda>borrowedChild.
       andThen (upd t node (\<lambda>n. n\<lparr>Children := Children n @ [borrowedChild]\<rparr>)) (\<lambda>t.
       andThen (upd t borrowedChild (\<lambda>n. n\<lparr>Parent := node\<rparr>)) (\<lambda>t.
       andThen (rd t rightSibling) (\<lambda>r.
       andThen (sliceFrom (Children r) 1) (\<lambda>rChildren.
       upd t rightSibling (\<lambda>n. n\<lparr>Children := rChildren\<rparr>)))))))
     else Inr t))))))))))))))))))))))))))))"

definition mergeWithLeftSibling :: "nat \<Rightarrow> 'v Tree \<Rightarrow> addr option \<Rightarrow> int \<Rightarrow> 'v Tree res" where
  "mergeWithLeftSibling fuel t parent leftIndex =
     (if parent = None then Inl (LoggerPanic ''mergeWithLeftSibling: parent is nil'')
      else
        andThen (rd t parent) (\<lambda>p.
        let originalParentSize = int (length (Keys p)) in
        if leftIndex < 0 \<or> leftIndex \<ge> originalParentSize
        then Inl (LoggerPanic ''mergeWithLeftSibling: invalid merge index %d (parent has %d keys)'')
        else if leftIndex + 1 \<ge> int (length (Children p))
        then Inl (LoggerPanic ''mergeWithLeftSibling: not enough children, leftIndex %d, children length %d'')
        else
          andThen (idx (Children p) leftIndex) (\<lambda>leftSibling.
          andThen (idx (Children p) (leftIndex + 1)) (\<lambda>node.
          andThen (rd t leftSibling) (\<lambda>_.
          andThen (rd t node) (\<lambda>_.
          andThen (idx (Keys p) leftIndex) (\<lambda>sepKey.
          andThen (upd t leftSibling (\<lambda>n. n\<lparr>Keys := Keys n @ [sepKey]\<rparr>)) (\<lambda>t.
          andThen (rd t parent) (\<lambda>p.
          andThen (idx (Values p) leftIndex) (\<lambda>sepValue.
          andThen (upd t leftSibling (\<lambda>n. n\<lparr>Values := Values n @ [sepValue]\<rparr>)) (\<lambda>t.
          andThen (upd t leftSibling (\<lambda>n. n\<lparr>Node.Size := int (length (Keys n))\<rparr>)) (\<lambda>t.
          andThen (rd t node) (\<lambda>n.
          andThen (upd t leftSibling (\<lambda>l. l\<lparr>Keys := Keys l @ Keys n\<rparr>)) (\<lambda>t.
          andThen (rd t node) (\<lambda>n.
          andThen (upd t leftSibling (\<lambda>l. l\<lparr>Values := Values l @ Values n\<rparr>)) (\<lambda>t.
          andThen (upd t leftSibling (\<lambda>n. n\<lparr>Node.Size := int (length (Keys n))\<rparr>)) (\<lambda>t.
          andThen (rd t node) (\<lambda>n.
          andThen (if \<not> IsLeaf n then
                     andThen (upd t leftSibling (\<lambda>l. l\<lparr>Children := Children l @ Children n\<rparr>)) (\<lambda>t.
                     andThen (rd t node) (\<lambda>n.
                     reparent t (Children n) leftSibling))
                   else Inr t) (\<lambda>t.
          andThen (rd t parent) (\<lambda>p.
          andThen (removeAt (Keys p) leftIndex) (\<lambda>pKeys.
          andThen (upd t parent (\<lambda>n. n\<lparr>Keys := pKeys\<rparr>)) (\<lambda>t.
          andThen (rd t parent) (\<lambda>p.
          andThen (removeAt (Values p) leftIndex) (\<lambda>pValues.
          andThen (upd t parent (\<lambda>n. n\<lparr>Values := pValues\<rparr>)) (\<lambda>t.
          andThen (rd t parent) (\<lambda>p.
          andThen (sliceTo (Children p) (leftIndex + 1)) (\<lambda>front.
          andThen (sliceFrom (Children p) (leftIndex + 2)) (\<lambda>back.
          andThen (upd t parent (\<lambda>n. n\<lparr>Children := front @ back\<rparr>)) (\<lambda>t.
          andThen (rd t parent) (\<lambda>p.
          andThen (setIdx (Children p) leftIndex leftSibling) (\<lambda>pChildren.
          andThen (upd t parent (\<lambda>n. n\<lparr>Children := pChildren\<rparr>)) (\<lambda>t.
          andThen (upd t parent (\<lambda>n. n\<lparr>Node.Size := int (length (Keys n))\<rparr>)) (\<lambda>t.
          andThen (rd t parent) (\<lambda>p.
          if int (length (Children p)) \<noteq> Node.Size p + 1
          then Inl (LoggerPanic ''mergeWithLeftSibling: invariant violation: parent's children count %d != keys count %d + 1'')
          else
            andThen (checkInvariants fuel t parent) (\<lambda>_.
            andThen (rd t parent) (\<lambda>p.
            if Parent p = None \<and> Node.Size p = 0 then
              andThen (rd t leftSibling) (\<lambda>_.
              let t = t\<lparr>Root := leftSibling\<rparr> in
              andThen (upd t leftSibling (\<lambda>n. n\<lparr>Parent := None\<rparr>)) (\<lambda>t.
              Inr (t\<lparr>Height := Height t - 1\<rparr>)))
            else Inr t))))))))))))))))))))))))))))))))))))"

definition mergeWithRightSibling :: "nat \<Rightarrow> 'v Tree \<Rightarrow> addr option \<Rightarrow> int \<Rightarrow> 'v Tree res" where
  "mergeWithRightSibling fuel t parent index =
     (if parent = None then Inl (LoggerPanic ''mergeWithRightSibling: parent is nil'')
      else
        andThen (upd t parent (\<lambda>n. n\<lparr>Node.Size := int (length (Keys n))\<rparr>)) (\<lambda>t.
        andThen (rd t parent) (\<lambda>p.
        if Node.Size p = 0
        then Inl (LoggerPanic ''mergeWithRightSibling: parent has 0 keys, cannot merge'')
        else if index < 0 \<or> index \<ge> Node.Size p
        then Inl (LoggerPanic ''mergeWithRightSibling: invalid index %d (parent has %d keys)'')
        else if index + 1 \<ge> int (length (Children p))
        then Inl (LoggerPanic ''mergeWithRightSibling: not enough children, index %d, children length %d'')
        else
          andThen (idx (Children p) index) (\<lambda>node.
          andThen (idx (Children p) (index + 1)) (\<lambda>rightSibling.
          andThen (rd t node) (\<lambda>_.
          andThen (rd t rightSibling) (\<lambda>_.
          andThen (idx (Keys p) index) (\<lambda>sepKey.
          andThen (upd t node (\<lambda>n. n\<lparr>Keys := Keys n @ [sepKey]\<rparr>)) (\<lambda>t.
          andThen (rd t parent) (\<lambda>p.
          andThen (idx (Values p) index) (\<lambda>sepValue.
          andThen (upd t node (\<lambda>n. n\<lparr>Values := Values n @ [sepValue]\<rparr>)) (\<lambda>t.
          andThen (upd t node (\<lambda>n. n\<lparr>Node.Size := int (length (Keys n))\<rparr>)) (\<lambda>t.
          andThen (rd t rightSibling) (\<lambda>r.
          andThen (upd t node (\<lambda>n. n\<lparr>Keys := Keys n @ Keys r\<rparr>)) (\<lambda>t.
          andThen (rd t rightSibling) (\<lambda>r.
          andThen (upd t node (\<lambda>n. n\<lparr>Values := Values n @ Values r\<rparr>)) (\<lambda>t.
          andThen (upd t node (\<lambda>n. n\<lparr>Node.Size := int (length (Keys n))\<rparr>)) (\<lambda>t.
          andThen (rd t node) (\<lambda>n.
          andThen (if \<not> IsLeaf n then
                     andThen (rd t rightSibling) (\<lambda>r.
                     andThen (upd t node (\<lambda>n. n\<lparr>Children := Children n @ Children r\<rparr>)) (\<lambda>t.
                     andThen (rd t rightSibling) (\<lambda>r.
                     reparent t (Children r) node)))
                   else Inr t) (\<lambda>t.
          andThen (rd t parent) (\<lambda>p.
          andThen (removeAt (Keys p) index) (\<lambda>pKeys.
          andThen (upd t parent (\<lambda>n. n\<lparr>Keys := pKeys\<rparr>)) (\<lambda>t.
          andThen (rd t parent) (\<lambda>p.
          andThen (removeAt (Values p) index) (\<lambda>pValues.
          andThen (upd t parent (\<lambda>n. n\<lparr>Values := pValues\<rparr>)) (\<lambda>t.
          andThen (rd t parent) (\<lambda>p.
          andThen (sliceTo (Children p) (index + 1)) (\<lambda>front.
          andThen (sliceFrom (Children p) (index + 2)) (\<lambda>back.
          andThen (upd t parent (\<lambda>n. n\<lparr>Children := front @ back\<rparr>)) (\<lambda>t.
          andThen (upd t parent (\<lambda>n. n\<lparr>Node.Size := int (length (Keys n))\<rparr>)) (\<lambda>t.
          andThen (rd t parent) (\<lambda>p.
          if int (length (Children p)) \<noteq> Node.Size p + 1
          then Inl (LoggerPanic ''mergeWithRightSibling: invariant violation: parent's children count %d != keys count %d + 1'')
          else
            andThen (checkInvariants fuel t parent) (\<lambda>_.
            Inr t)))))))))))))))))))))))))))))))))"

fun balanceAfterDeletion :: "nat \<Rightarrow> 'v Tree \<Rightarrow> addr option \<Rightarrow> 'v Tree res" where
  "balanceAfterDeletion 0 t node = Inl OutOfFuel"
| "balanceAfterDeletion (Suc fuel) t node =
     (if node = None then Inr t
      else
        andThen (rd t node) (\<lambda>n.
        if Node.Size n \<ge> MinKeys n \<or> Parent n = None then
          if Parent n = None \<and> Node.Size n = 0 \<and> length (Children n) > 0 then
            andThen (idx (Children n) 0) (\<lambda>c.
            let t = t\<lparr>Root := c\<rparr> in
            andThen (upd t (Root t) (\<lambda>m. m\<lparr>Parent := None\<rparr>)) (\<lambda>t.
            Inr (t\<lparr>Height := Height t - 1\<rparr>)))
          else Inr t
        else
          let parent = Parent n in
          andThen (rd t parent) (\<lambda>p.
          let childIndex = indexOf (Children p) node in
          if childIndex < 0 \<or> childIndex \<ge> int (length (Children p))
          then Inl (LoggerPanic ''invalid child index %d in parent with %d children'')
          else
            andThen (if childIndex > 0 then
                       andThen (idx (Children p) (childIndex - 1)) (\<lambda>leftSibling.
                       andThen (rd t leftSibling) (\<lambda>l. Inr (Node.Size l > MinKeys l)))
                     else Inr False) (\<lambda>borrowLeft.
            if borrowLeft then borrowFromLeftSibling fuel t parent childIndex
            else
              andThen (if childIndex < int (length (Children p)) - 1 then
                         andThen (idx (Children p) (childIndex + 1)) (\<lambda>rightSibling.
                         andThen (rd t rightSibling) (\<lambda>r. Inr (Node.Size r > MinKeys r)))
                       else Inr False) (\<lambda>borrowRight.
              if borrowRight then borrowFromRightSibling t parent childIndex
              else
                andThen (if childIndex > 0 then mergeWithLeftSibling fuel t parent (childIndex - 1)
                         else mergeWithRightSibling fuel t parent childIndex) (\<lambda>t.
                andThen (rd t parent) (\<lambda>p.
                if Node.Size p < MinKeys p then balanceAfterDeletion fuel t parent
                else Inr t))))))) "

subsection \<open>tree.go: deletion\<close>

fun getPredecessor :: "nat \<Rightarrow> 'v Tree \<Rightarrow> addr option \<Rightarrow> (addr option \<times> goint \<times> 'v option) res" where
  "getPredecessor 0 t current = Inl OutOfFuel"
| "getPredecessor (Suc fuel) t current =
     andThen (rd t current) (\<lambda>c.
     if \<not> IsLeaf c then
       andThen (idx (Children c) (Node.Size c)) (\<lambda>next. getPredecessor fuel t next)
     else
       andThen (idx (Keys c) (Node.Size c - 1)) (\<lambda>predKey.
       andThen (idx (Values c) (Node.Size c - 1)) (\<lambda>predValue.
       Inr (current, predKey, predValue))))"

fun getSuccessor :: "nat \<Rightarrow> 'v Tree \<Rightarrow> addr option \<Rightarrow> (addr option \<times> goint \<times> 'v option) res" where
  "getSuccessor 0 t current = Inl OutOfFuel"
| "getSuccessor (Suc fuel) t current =
     andThen (rd t current) (\<lambda>c.
     if \<not> IsLeaf c then
       andThen (idx (Children c) 0) (\<lambda>next. getSuccessor fuel t next)
     else
       andThen (idx (Keys c) 0) (\<lambda>succKey.
       andThen (idx (Values c) 0) (\<lambda>succValue.
       Inr (current, succKey, succValue))))"

definition mergeChildren :: "nat \<Rightarrow> 'v Tree \<Rightarrow> addr option \<Rightarrow> int \<Rightarrow> 'v Tree res" where
  "mergeChildren fuel t node index =
     (if node = None then Inl (LoggerPanic ''mergeChildren: node is nil'')
      else
        andThen (rd t node) (\<lambda>n.
        if index < 0 \<or> index \<ge> int (length (Children n)) - 1
        then Inl (LoggerPanic ''mergeChildren: invalid index %d (node.Children length %d)'')
        else
          andThen (idx (Children n) index) (\<lambda>leftChild.
          andThen (idx (Children n) (index + 1)) (\<lambda>rightChild.
          andThen (rd t leftChild) (\<lambda>_.
          andThen (rd t rightChild) (\<lambda>_.
          andThen (idx (Keys n) index) (\<lambda>sepKey.
          andThen (upd t leftChild (\<lambda>l. l\<lparr>Keys := Keys l @ [sepKey]\<rparr>)) (\<lambda>t.
          andThen (rd t node) (\<lambda>n.
          andThen (idx (Values n) index) (\<lambda>sepValue.
          andThen (upd t leftChild (\<lambda>l. l\<lparr>Values := Values l @ [sepValue]\<rparr>)) (\<lambda>t.
          andThen (upd t leftChild (\<lambda>l. l\<lparr>Node.Size := int (length (Keys l))\<rparr>)) (\<lambda>t.
          andThen (rd t rightChild) (\<lambda>r.
          andThen (upd t leftChild (\<lambda>l. l\<lparr>Keys := Keys l @ Keys r\<rparr>)) (\<lambda>t.
          andThen (rd t rightChild) (\<lambda>r.
          andThen (upd t leftChild (\<lambda>l. l\<lparr>Values := Values l @ Values r\<rparr>)) (\<lambda>t.
          andThen (upd t leftChild (\<lambda>l. l\<lparr>Node.Size := int (length (Keys l))\<rparr>)) (\<lambda>t.
          andThen (rd t leftChild) (\<lambda>l.
          andThen (if \<not> IsLeaf l then
                     andThen (rd t rightChild) (\<lambda>r.
                     andThen (upd t leftChild (\<lambda>l. l\<lparr>Children := Children l @ Children r\<rparr>)) (\<lambda>t.
                     andThen (rd t rightChild) (\<lambda>r.
                     reparent t (Children r) leftChild)))
                   else Inr t) (\<lambda>t.
          andThen (rd t node) (\<lambda>n.
          andThen (removeAt (Keys n) index) (\<lambda>nKeys.
          andThen (upd t node (\<lambda>n. n\<lparr>Keys := nKeys\<rparr>)) (\<lambda>t.
          andThen (rd t node) (\<lambda>n.
          andThen (removeAt (Values n) index) (\<lambda>nValues.
          andThen (upd t node (\<lambda>n. n\<lparr>Values := nValues\<rparr>)) (\<lambda>t.
          andThen (rd t node) (\<lambda>n.
          andThen (sliceTo (Children n) (index + 1)) (\<lambda>front.
          andThen (sliceFrom (Children n) (index + 2)) (\<lambda>back.
          andThen (upd t node (\<lambda>n. n\<lparr>Children := front @ back\<rparr>)) (\<lambda>t.
          andThen (upd t node (\<lambda>n. n\<lparr>Node.Size := int (length (Keys n))\<rparr>)) (\<lambda>t.
          andThen (rd t node) (\<lambda>n.
          if int (length (Children n)) \<noteq> Node.Size n + 1
          then Inl (LoggerPanic ''mergeChildren: invariant violation: node's children count %d != keys count %d + 1'')
          else
            andThen (checkInvariants fuel t node) (\<lambda>_.
            andThen (rd t node) (\<lambda>n.
            if Node.Size n = 0 \<and> Parent n = None then
              andThen (rd t leftChild) (\<lambda>_.
              let t = t\<lparr>Root := leftChild\<rparr> in
              andThen (upd t leftChild (\<lambda>l. l\<lparr>Parent := None\<rparr>)) (\<lambda>t.
              Inr (t\<lparr>Height := Height t - 1\<rparr>)))
            else Inr t)))))))))))))))))))))))))))))))))"

fun deleteNode :: "nat \<Rightarrow> 'v Tree \<Rightarrow> addr option \<Rightarrow> goint \<Rightarrow> 'v Tree res"
  and deleteInternal :: "nat \<Rightarrow> 'v Tree \<Rightarrow> addr option \<Rightarrow> int \<Rightarrow> 'v Tree res" where
  "deleteNode 0 t node key = Inl OutOfFuel"
| "deleteNode (Suc fuel) t node key =
     andThen (rd t node) (\<lambda>n.
     andThen (scanUp (Comparator t) (Keys n) key (Node.Size n) 0) (\<lambda>i.
     andThen (if i < Node.Size n
              then andThen (idx (Keys n) i) (\<lambda>k. Inr (Comparator t k key = 0))
              else Inr False) (\<lambda>found.
     andThen (if found then
                if IsLeaf n then
                  andThen (removeAt (Keys n) i) (\<lambda>ks.
                  andThen (upd t node (\<lambda>n. n\<lparr>Keys := ks\<rparr>)) (\<lambda>t.
                  andThen (removeAt (Values n) i) (\<lambda>vs.
                  andThen (upd t node (\<lambda>n. n\<lparr>Values := vs\<rparr>)) (\<lambda>t.
                  andThen (upd t node (\<lambda>n. n\<lparr>Node.Size := Node.Size n - 1\<rparr>)) (\<lambda>t.
                  andThen (checkInvariants fuel t node) (\<lambda>_.
                  andThen (rd t node) (\<lambda>n.
                  if Node.Size n < MinKeys n then balanceAfterDeletion fuel t node
                  else Inr t)))))))
                else deleteInternal fuel t node i
              else if \<not> IsLeaf n then
                andThen (idx (Children n) i) (\<lambda>c. deleteNode fuel t c key)
              else Inr t) (\<lambda>t.
     andThen (checkInvariants fuel t node) (\<lambda>_.
     Inr t)))))"
| "deleteInternal 0 t node index = Inl OutOfFuel"
| "deleteInternal (Suc fuel) t node index =
     andThen (rd t node) (\<lambda>n.
     andThen (idx (Keys n) index) (\<lambda>key.
     andThen (idx (Children n) index) (\<lambda>leftChild.
     andThen (idx (Children n) (index + 1)) (\<lambda>rightChild.
     andThen (rd t leftChild) (\<lambda>l.
     if Node.Size l > MinKeys l then
       andThen (getPredecessor fuel t leftChild) (\<lambda>(predNode, predKey, predValue).
       andThen (rd t node) (\<lambda>n.
       andThen (setIdx (Keys n) index predKey) (\<lambda>nKeys.
       andThen (upd t node (\<lambda>n. n\<lparr>Keys := nKeys\<rparr>)) (\<lambda>t.
       andThen (rd t node) (\<lambda>n.
       andThen (setIdx (Values n) index predValue) (\<lambda>nValues.
       andThen (upd t node (\<lambda>n. n\<lparr>Values := nValues\<rparr>)) (\<lambda>t.
       andThen (deleteNode fuel t predNode predKey) (\<lambda>t.
       andThen (checkInvariants fuel t node) (\<lambda>_.
       Inr t)))))))))
     else
       andThen (rd t rightChild) (\<lambda>r.
       if Node.Size r > MinKeys r then
         andThen (getSuccessor fuel t rightChild) (\<lambda>(succNode, succKey, succValue).
         andThen (rd t node) (\<lambda>n.
         andThen (setIdx (Keys n) index succKey) (\<lambda>nKeys.
         andThen (upd t node (\<lambda>n. n\<lparr>Keys := nKeys\<rparr>)) (\<lambda>t.
         andThen (rd t node) (\<lambda>n.
         andThen (setIdx (Values n) index succValue) (\<lambda>nValues.
         andThen (upd t node (\<lambda>n. n\<lparr>Values := nValues\<rparr>)) (\<lambda>t.
         andThen (deleteNode fuel t succNode succKey) (\<lambda>t.
         andThen (checkInvariants fuel t node) (\<lambda>_.
         Inr t)))))))))
       else
         andThen (if Parent n = None then Inr True
                  else andThen (rd t (Parent n)) (\<lambda>p. Inr (Node.Size p = 0))) (\<lambda>direct.
         if direct then
           andThen (mergeChildren fuel t node index) (\<lambda>t.
           andThen (checkInvariants fuel t node) (\<lambda>_.
           Inr t))
         else
           let parent = Parent n in
           andThen (rd t parent) (\<lambda>p.
           let childIndex = indexOf (Children p) node in
           if childIndex < 0 \<or> childIndex \<ge> int (length (Children p))
           then Inl (LoggerPanic ''deleteInternal: node not found in parent's children'')
           else
             andThen (if childIndex > 0 then
                        andThen (mergeWithLeftSibling fuel t parent (childIndex - 1)) (\<lambda>t.
                        andThen (rd t parent) (\<lambda>p.
                        andThen (idx (Children p) (childIndex - 1)) (\<lambda>c.
                        deleteNode fuel t c key)))
                      else
                        andThen (mergeWithRightSibling fuel t parent childIndex) (\<lambda>t.
                        andThen (rd t parent) (\<lambda>p.
                        andThen (idx (Children p) childIndex) (\<lambda>c.
                        deleteNode fuel t c key)))) (\<lambda>t.
             andThen (checkInvariants fuel t node) (\<lambda>_.
             Inr t))))))))))"

definition Delete :: "nat \<Rightarrow> 'v Tree \<Rightarrow> goint \<Rightarrow> 'v Tree res" where
  "Delete fuel t key =
     (if Root t = None then Inr t
      else
        andThen (deleteNode fuel t (Root t) key) (\<lambda>t.
        andThen (rd t (Root t)) (\<lambda>r.
        andThen (if Node.Size r = 0 \<and> \<not> IsLeaf r then
                   andThen (idx (Children r) 0) (\<lambda>c.
                   let t = t\<lparr>Root := c, Height := Height t - 1\<rparr> in
                   andThen (rd t (Root t)) (\<lambda>_. Inr t))
                 else Inr t) (\<lambda>t.
        let t = t\<lparr>Tree.Size := Tree.Size t - 1\<rparr> in
        andThen (checkInvariants fuel t (Root t)) (\<lambda>_.
        Inr t)))))"

subsection \<open>The validation query\<close>






subsection \<open>Sequences of public calls, and the size invariant as the specification words it\<close>

fun insertAll :: "nat \<Rightarrow> 'v Tree \<Rightarrow> (goint \<times> 'v option) list \<Rightarrow> 'v Tree res" where
  "insertAll fuel t [] = Inr t"
| "insertAll fuel t ((k, v) # kvs) = andThen (Insert fuel t k v) (\<lambda>t. insertAll fuel t kvs)"

text \<open>The sum of the node-local \<^verbatim>\<open>Size\<close> fields over the nodes reachable from a node
  (invariant 7 of the specification compares it with \<^verbatim>\<open>Tree.Size\<close>).\<close>

fun sumNodeSizes :: "nat \<Rightarrow> 'v Tree \<Rightarrow> addr option \<Rightarrow> int res" where
  "sumNodeSizes 0 t node = Inl OutOfFuel"
| "sumNodeSizes (Suc fuel) t node =
     (if node = None then Inr 0
      else
        andThen (rd t node) (\<lambda>n.
        if IsLeaf n then Inr (Node.Size n)
        else forEachUpd (Children n) (Node.Size n) (\<lambda>acc child.
               andThen (sumNodeSizes fuel t child) (\<lambda>s. Inr (acc + s)))))"

subsection \<open>What the validation query establishes\<close>

text \<open>The nodes that the recursion of \<^verbatim>\<open>validateNode\<close> visits from a node: its children when
  it is not a leaf, and so on.\<close>

inductive reaches :: "'v Tree \<Rightarrow> addr \<Rightarrow> addr \<Rightarrow> bool" for t :: "'v Tree" and a :: addr where
  self: "reaches t a a"
| child: "reaches t a b \<Longrightarrow> b < length (nodes t) \<Longrightarrow> \<not> IsLeaf (nodes t ! b)
          \<Longrightarrow> Some c \<in> set (Children (nodes t ! b)) \<Longrightarrow> reaches t a c"


text \<open>The tree that inserting 10, 20, 30, 40 into a fresh tree of degree 2 builds, and a
  tree whose root is an internal node with one key and no child.\<close>

definition builtTree :: "unit Tree" where
  "builtTree =
     \<lparr>Root = Some 1, Degree = 2, Size = 4, Height = 2, Comparator = (\<lambda>a b. a - b),
      nodes =
        [\<lparr>Keys = [10], Children = [], IsLeaf = True, Parent = Some 1, Node.Size = 1,
          MaxKeys = 3, MinKeys = 1, Values = [None]\<rparr>,
         \<lparr>Keys = [20], Children = [Some 0, Some 2], IsLeaf = False, Parent = None, Node.Size = 1,
          MaxKeys = 3, MinKeys = 1, Values = [None]\<rparr>,
         \<lparr>Keys = [30, 40], Children = [], IsLeaf = True, Parent = Some 1, Node.Size = 2,
          MaxKeys = 3, MinKeys = 1, Values = [None, None]\<rparr>]\<rparr>"


subsection \<open>The shape of a tree in the store\<close>

text \<open>
  A skeleton names the addresses of a subtree: the address of its root node and the
  skeletons of its children, in order. A store is shaped like a skeleton when every node of
  the skeleton is allocated, its \<^verbatim>\<open>Size\<close> is the number of its keys and of its values, its
  \<^verbatim>\<open>MaxKeys\<close> is \<open>2 * Degree - 1\<close>, its children are the roots of the child skeletons, and an
  internal node has one child more than keys. With distinct addresses this is the tree
  the insertion path works on; the \<^verbatim>\<open>Parent\<close> pointers play no part in it.
\<close>

datatype skel = Sk (root: addr) (kids: "skel list")

fun addrs :: "skel \<Rightarrow> addr list" where
  "addrs (Sk a ks) = a # concat (map addrs ks)"

fun height :: "skel \<Rightarrow> nat" where
  "height (Sk a ks) = Suc (Max (set (0 # map height ks)))"

fun shaped :: "'v Tree \<Rightarrow> skel \<Rightarrow> bool" where
  "shaped t (Sk a ks) =
     (a < length (nodes t) \<and>
      Node.Size (nodes t ! a) = int (length (Keys (nodes t ! a))) \<and>
      length (Values (nodes t ! a)) = length (Keys (nodes t ! a)) \<and>
      MaxKeys (nodes t ! a) = 2 * Degree t - 1 \<and>
      Children (nodes t ! a) = map (\<lambda>k. Some (root k)) ks \<and>
      (if IsLeaf (nodes t ! a) then ks = [] else length ks = length (Keys (nodes t ! a)) + 1) \<and>
      (\<forall>k \<in> set ks. shaped t k))"

text \<open>The key/value entries held in the nodes of a skeleton.\<close>

fun entries :: "'v Tree \<Rightarrow> skel \<Rightarrow> (goint \<times> 'v option) multiset" where
  "entries t (Sk a ks) =
     mset (zip (Keys (nodes t ! a)) (Values (nodes t ! a))) + sum_list (map (entries t) ks)"

text \<open>The store after \<^verbatim>\<open>for _, c := range cs { c.Parent = p }\<close>, and equality of two nodes up
  to their \<^verbatim>\<open>Parent\<close> pointers.\<close>

definition setParents :: "'v Node list \<Rightarrow> addr option list \<Rightarrow> addr option \<Rightarrow> 'v Node list" where
  "setParents h cs p = map (\<lambda>(b, n). if Some b \<in> set cs then n\<lparr>Parent := p\<rparr> else n) (enumerate 0 h)"

definition dataEq :: "'v Node \<Rightarrow> 'v Node \<Rightarrow> bool" where
  "dataEq n m = (n\<lparr>Parent := None\<rparr> = m\<lparr>Parent := None\<rparr>)"


subsection \<open>The split, as the specification words it\<close>

text \<open>
  \<open>splitSpec t pa i\<close> is the tree after splitting the child at position \<open>i\<close> of the node
  at \<open>pa\<close>, with \<open>d\<close> the degree: the parent receives the child's key and value at local
  position \<open>d - 1\<close> at its own position \<open>i\<close>, and the address of the new sibling right
  after the child; the sibling is a new node holding the child's keys and values from
  position \<open>d\<close> on and, for an internal child, its children from position \<open>d\<close> on, each
  re-parented to the sibling; the child keeps its first \<open>d - 1\<close> keys and values and, when
  internal, its first \<open>d\<close> children.
\<close>

definition splitSpec :: "'v Tree \<Rightarrow> addr \<Rightarrow> nat \<Rightarrow> 'v Tree" where
  "splitSpec t pa i =
     (let h = nodes t; d = nat (Degree t); p = h ! pa; ca = the (Children p ! i); c = h ! ca;
          na = length h;
          moved = (if IsLeaf c then [] else drop d (Children c));
          sibling = \<lparr>Keys = drop d (Keys c), Children = moved, IsLeaf = IsLeaf c,
                     Parent = Some pa, Node.Size = Degree t - 1, MaxKeys = 2 * Degree t - 1,
                     MinKeys = Degree t - 1, Values = drop d (Values c)\<rparr>;
          c' = c\<lparr>Keys := take (d - 1) (Keys c), Values := take (d - 1) (Values c),
                 Node.Size := Degree t - 1,
                 Children := (if IsLeaf c then Children c else take d (Children c))\<rparr>;
          p' = p\<lparr>Keys := take i (Keys p) @ [Keys c ! (d - 1)] @ drop i (Keys p),
                 Values := take i (Values p) @ [Values c ! (d - 1)] @ drop i (Values p),
                 Children := take (Suc i) (Children p) @ [Some na] @ drop (Suc i) (Children p),
                 Node.Size := Node.Size p + 1\<rparr>
      in t\<lparr>nodes := (setParents (h @ [sibling]) moved (Some na))[ca := c', pa := p']\<rparr>)"


text \<open>A tree of degree 2 and height 3, whose root has a full internal node as first child.\<close>

definition leafOf :: "goint list \<Rightarrow> addr option \<Rightarrow> unit Node" where
  "leafOf ks p =
     \<lparr>Keys = ks, Children = [], IsLeaf = True, Parent = p, Node.Size = int (length ks),
      MaxKeys = 3, MinKeys = 1, Values = map (\<lambda>_. None) ks\<rparr>"

definition innerOf :: "goint list \<Rightarrow> addr list \<Rightarrow> addr option \<Rightarrow> unit Node" where
  "innerOf ks cs p =
     \<lparr>Keys = ks, Children = map Some cs, IsLeaf = False, Parent = p, Node.Size = int (length ks),
      MaxKeys = 3, MinKeys = 1, Values = map (\<lambda>_. None) ks\<rparr>"

definition threeLevelTree :: "unit Tree" where
  "threeLevelTree =
     \<lparr>Root = Some 0, Degree = 2, Size = 11, Height = 3, Comparator = (\<lambda>a b. a - b),
      nodes =
        [innerOf [50] [1, 2] None,
         innerOf [10, 20, 30] [3, 4, 5, 6] (Some 0),
         innerOf [70] [7, 8] (Some 0),
         leafOf [5] (Some 1), leafOf [15] (Some 1), leafOf [25] (Some 1), leafOf [35] (Some 1),
         leafOf [60] (Some 2), leafOf [80] (Some 2)]\<rparr>"

definition threeLevelSkel :: skel where
  "threeLevelSkel =
     Sk 0 [Sk 1 [Sk 3 [], Sk 4 [], Sk 5 [], Sk 6 []], Sk 2 [Sk 7 [], Sk 8 []]]"

subsection \<open>A subtree after an insertion\<close>

text \<open>
  \<open>grown t T t' T'\<close> relates a subtree before and after a step of the insertion path: the
  new store is shaped like the new skeleton, which has the same root, distinct addresses
  and no greater height; the addresses it uses are those of the old skeleton and nodes
  allocated since; the nodes outside the old skeleton and the fields of the tree other
  than the store are as before.
\<close>

definition grown :: "'v Tree \<Rightarrow> skel \<Rightarrow> 'v Tree \<Rightarrow> skel \<Rightarrow> bool" where
  "grown t T t' T' =
     (shaped t' T' \<and> root T' = root T \<and> distinct (addrs T') \<and> height T' \<le> height T \<and>
      length (nodes t) \<le> length (nodes t') \<and>
      set (addrs T') \<subseteq> set (addrs T) \<union> {length (nodes t)..<length (nodes t')} \<and>
      (\<forall>b. b < length (nodes t) \<and> b \<notin> set (addrs T) \<longrightarrow> nodes t' ! b = nodes t ! b) \<and>
      t'\<lparr>nodes := nodes t\<rparr> = t)"


subsection \<open>The place of an inserted entry\<close>

text \<open>
  The scan of \<^verbatim>\<open>insertNonFull\<close> runs from the last key of a node towards the first, past
  every key that compares greater than the inserted key. The scan position of \<open>k\<close> in the
  key list \<open>ks\<close> is where it stops: the position right after the last key that does not
  compare greater than \<open>k\<close>; the keys from that position on all compare greater.
\<close>

definition scanPos :: "(goint \<Rightarrow> goint \<Rightarrow> goint) \<Rightarrow> goint list \<Rightarrow> goint \<Rightarrow> nat" where
  "scanPos cmp ks k = length ks - length (takeWhile (\<lambda>x. 0 < sint (cmp x k)) (rev ks))"

text \<open>
  The insertion below a node that is not full, as section 4.2 of the specification words
  it. At a leaf the entry is put at the scan position and the size grows by one. At an
  internal node the child at the scan position is located; a full child is split first
  (\<open>splitSpec\<close>), and the target moves to the new sibling, whose address is the first free
  one, when the promoted key compares less than \<open>k\<close>; then the insertion goes on below the
  target. The first argument bounds the depth of the descent.
\<close>

fun insertNonFullSpec :: "nat \<Rightarrow> 'v Tree \<Rightarrow> addr \<Rightarrow> goint \<Rightarrow> 'v option \<Rightarrow> 'v Tree" where
  "insertNonFullSpec 0 t a k v = t"
| "insertNonFullSpec (Suc fuel) t a k v =
     (let n = nodes t ! a; m = scanPos (Comparator t) (Keys n) k in
      if IsLeaf n
      then t\<lparr>nodes := (nodes t)[a := n\<lparr>Keys := take m (Keys n) @ [k] @ drop m (Keys n),
                                       Values := take m (Values n) @ [v] @ drop m (Values n),
                                       Node.Size := Node.Size n + 1\<rparr>]\<rparr>
      else
        let c = the (Children n ! m) in
        if Node.Size (nodes t ! c) = MaxKeys (nodes t ! c)
        then
          let t1 = splitSpec t a m in
          if sint (Comparator t (Keys (nodes t1 ! a) ! m) k) < 0
          then insertNonFullSpec fuel t1 (length (nodes t)) k v
          else insertNonFullSpec fuel t1 c k v
        else insertNonFullSpec fuel t c k v)"

text \<open>
  \<^verbatim>\<open>Insert\<close> into a tree that has a root, in the same words: a full root becomes the sole
  child of a new empty root and is split, which grows the height by one; the entry is
  inserted below the root; \<^verbatim>\<open>Tree.Size\<close> grows by one.
\<close>

definition InsertSpec :: "nat \<Rightarrow> 'v Tree \<Rightarrow> goint \<Rightarrow> 'v option \<Rightarrow> 'v Tree" where
  "InsertSpec fuel t k v =
     (let r = the (Root t); rn = nodes t ! r; nr = length (nodes t);
          newRoot = \<lparr>Keys = [], Children = [Some r], IsLeaf = False, Parent = None,
                     Node.Size = 0, MaxKeys = 2 * Degree t - 1, MinKeys = Degree t - 1,
                     Values = []\<rparr>;
          t0 = t\<lparr>nodes := (nodes t @ [newRoot])[r := rn\<lparr>Parent := Some nr\<rparr>]\<rparr>;
          s = (if Node.Size rn = MaxKeys rn
               then (splitSpec t0 nr 0)\<lparr>Root := Some nr, Height := Height t + 1\<rparr>
               else t);
          u = insertNonFullSpec fuel s (the (Root s)) k v
      in u\<lparr>Tree.Size := Tree.Size t + 1\<rparr>)"

declare insertNonFullSpec.simps [simp del]

text \<open>
  The place of an entry, read off the tree after the insertion alone. In a leaf, \<open>leafPos\<close>
  holds of the position \<open>j\<close> of a key \<open>k\<close> when every later key of the leaf compares greater
  than \<open>k\<close> and the key before it, if there is one, does not. At an internal node,
  \<open>childPos\<close> holds of the child index \<open>c\<close> when every key right of the key at \<open>c\<close> compares
  greater than \<open>k\<close>, the key at \<open>c\<close> does not compare less, and the key at \<open>c - 1\<close> does not
  compare greater. \<open>placed t k v T\<close> says that the tree holds the entry \<open>(k, v)\<close> in a leaf
  reached from the root through such children, at such a position.
\<close>

definition leafPos :: "(goint \<Rightarrow> goint \<Rightarrow> goint) \<Rightarrow> goint list \<Rightarrow> goint \<Rightarrow> nat \<Rightarrow> bool" where
  "leafPos cmp ks k j =
     (j < length ks \<and> ks ! j = k \<and>
      list_all (\<lambda>x. 0 < sint (cmp x k)) (drop (Suc j) ks) \<and>
      list_all (\<lambda>x. \<not> 0 < sint (cmp x k)) (drop (j - 1) (take j ks)))"

definition childPos :: "(goint \<Rightarrow> goint \<Rightarrow> goint) \<Rightarrow> goint list \<Rightarrow> goint \<Rightarrow> nat \<Rightarrow> bool" where
  "childPos cmp ks k c =
     (c \<le> length ks \<and>
      list_all (\<lambda>x. 0 < sint (cmp x k)) (drop (Suc c) ks) \<and>
      list_all (\<lambda>x. \<not> sint (cmp x k) < 0) (take 1 (drop c ks)) \<and>
      list_all (\<lambda>x. \<not> 0 < sint (cmp x k)) (drop (c - 1) (take c ks)))"

function placed :: "'v Tree \<Rightarrow> goint \<Rightarrow> 'v option \<Rightarrow> skel \<Rightarrow> bool" where
  "placed t k v (Sk a ks) =
     (let n = nodes t ! a in
      if IsLeaf n
      then list_ex (\<lambda>j. leafPos (Comparator t) (Keys n) k j \<and> Values n ! j = v)
             [0..<length (Keys n)]
      else list_ex (\<lambda>c. childPos (Comparator t) (Keys n) k c \<and> placed t k v (ks ! c))
             [0..<length ks])"
  by pat_completeness auto
termination
proof (relation "measure (\<lambda>(t, k, v, T). size T)")
  show "wf (measure (\<lambda>(t, k, v, T). size T))" by simp
next
  fix t :: "'v Tree" and k :: goint and v :: "'v option" and a :: addr and ks :: "skel list"
    and x :: "'v Node" and xa :: nat
  assume "xa \<in> set [0..<length ks]"
  then have "ks ! xa \<in> set ks" by simp
  then have "size (ks ! xa) \<le> size_list size ks" by (rule size_list_estimation') simp
  then show "((t, k, v, ks ! xa), t, k, v, Sk a ks) \<in> measure (\<lambda>(t, k, v, T). size T)" by simp
qed

declare placed.simps [simp del]

text \<open>A tree of degree 2 whose root has a full leaf of equal keys as first child.\<close>

definition fullLeafTree :: "unit Tree" where
  "fullLeafTree =
     \<lparr>Root = Some 0, Degree = 2, Size = 5, Height = 2, Comparator = (\<lambda>a b. a - b),
      nodes = [innerOf [50] [1, 2] None, leafOf [20, 20, 20] (Some 0), leafOf [60] (Some 0)]\<rparr>"


section \<open>Basic facts\<close>

lemma andThen_Inr [simp]: "andThen (Inr x) f = f x"
  by (simp add: andThen_def)

lemma andThen_Inl [simp]: "andThen (Inl e) f = Inl e"
  by (simp add: andThen_def)




section \<open>The validation query\<close>





section \<open>Trees in the store\<close>

lemma length_setParents [simp]: "length (setParents h cs p) = length h"
  by (simp add: setParents_def)

lemma nth_setParents [simp]:
  "b < length h \<Longrightarrow> setParents h cs p ! b = (if Some b \<in> set cs then (h ! b)\<lparr>Parent := p\<rparr> else h ! b)"
  by (simp add: setParents_def nth_enumerate_eq)

lemma setParents_Nil [simp]: "setParents h [] p = h"
  by (rule nth_equalityI) simp_all

lemma setParents_Cons:
  "b < length h \<Longrightarrow> setParents (h[b := (h ! b)\<lparr>Parent := p\<rparr>]) cs p = setParents h (Some b # cs) p"
  by (rule nth_equalityI) (auto simp: nth_list_update)

lemma rd_Some [simp]: "a < length (nodes t) \<Longrightarrow> rd t (Some a) = Inr (nodes t ! a)"
  by (simp add: rd_def)

lemma upd_Some [simp]:
  "a < length (nodes t) \<Longrightarrow> upd t (Some a) f = Inr (t\<lparr>nodes := (nodes t)[a := f (nodes t ! a)]\<rparr>)"
  by (simp add: upd_def)

lemma reparent_ok:
  "\<forall>c \<in> set cs. \<exists>b. c = Some b \<and> b < length (nodes t)
   \<Longrightarrow> reparent t cs p = Inr (t\<lparr>nodes := setParents (nodes t) cs p\<rparr>)"
proof (induction cs arbitrary: t)
  case Nil
  then show ?case by (simp add: reparent_def)
next
  case (Cons c cs)
  then obtain b where b: "c = Some b" "b < length (nodes t)" by auto
  let ?t1 = "t\<lparr>nodes := (nodes t)[b := (nodes t ! b)\<lparr>Parent := p\<rparr>]\<rparr>"
  have "\<forall>c \<in> set cs. \<exists>b. c = Some b \<and> b < length (nodes ?t1)" using Cons.prems by simp
  from Cons.IH[OF this] have "reparent ?t1 cs p = Inr (?t1\<lparr>nodes := setParents (nodes ?t1) cs p\<rparr>)" .
  then show ?case
    using b by (simp add: reparent_def setParents_Cons)
qed

lemma forEach_ok: "(\<And>x. x \<in> set xs \<Longrightarrow> f x = Inr ()) \<Longrightarrow> forEach xs f = Inr ()"
  by (induction xs) simp_all

lemma height_kid: "k \<in> set ks \<Longrightarrow> height k < height (Sk a ks)"
proof -
  assume "k \<in> set ks"
  then have "height k \<le> Max (set (0 # map height ks))"
    by (intro Max_ge) auto
  then show ?thesis by simp
qed

lemma checkInvariants_shaped:
  "shaped t T \<Longrightarrow> height T \<le> fuel \<Longrightarrow> checkInvariants fuel t (Some (root T)) = Inr ()"
proof (induction fuel arbitrary: T)
  case 0
  then show ?case by (cases T) simp
next
  case (Suc fuel)
  obtain a ks where T: "T = Sk a ks" by (cases T)
  have kid: "checkInvariants fuel t c = Inr ()" if "c \<in> set (map (\<lambda>k. Some (root k)) ks)" for c
  proof -
    from that obtain k where k: "k \<in> set ks" "c = Some (root k)" by auto
    have "height k \<le> fuel" using height_kid[OF k(1), of a] Suc.prems(2) unfolding T by linarith
    moreover have "shaped t k" using Suc.prems(1) T k(1) by simp
    ultimately show ?thesis using Suc.IH k(2) by simp
  qed
  show ?case
    using Suc.prems(1) kid unfolding T
    by (auto intro!: forEach_ok)
qed

lemma dataEq_fields:
  assumes "dataEq n m"
  shows "Keys n = Keys m" "Values n = Values m" "Children n = Children m" "IsLeaf n = IsLeaf m"
    "Node.Size n = Node.Size m" "MaxKeys n = MaxKeys m" "MinKeys n = MinKeys m"
  using assms by (cases n; cases m; simp add: dataEq_def)+

lemma shaped_frame:
  "shaped t T \<Longrightarrow> Degree t' = Degree t
   \<Longrightarrow> (\<And>a. a \<in> set (addrs T) \<Longrightarrow> a < length (nodes t') \<and> dataEq (nodes t' ! a) (nodes t ! a))
   \<Longrightarrow> shaped t' T"
proof (induction T)
  case (Sk a ks)
  have a: "a < length (nodes t')" "dataEq (nodes t' ! a) (nodes t ! a)"
    using Sk.prems(3)[of a] by simp_all
  then have f: "Keys (nodes t' ! a) = Keys (nodes t ! a)" "Values (nodes t' ! a) = Values (nodes t ! a)"
       "Children (nodes t' ! a) = Children (nodes t ! a)" "IsLeaf (nodes t' ! a) = IsLeaf (nodes t ! a)"
       "Node.Size (nodes t' ! a) = Node.Size (nodes t ! a)" "MaxKeys (nodes t' ! a) = MaxKeys (nodes t ! a)"
    using dataEq_fields[OF a(2)] by simp_all
  have "shaped t' k" if "k \<in> set ks" for k
    using Sk.IH[OF that] Sk.prems that by auto
  then show ?case using Sk.prems(1,2) a(1) f by simp
qed

section \<open>The split\<close>

lemma copySlice_same_length: "length src = length dst \<Longrightarrow> copySlice dst src = src"
  by (simp add: copySlice_def)

lemma normalizeChildren_id:
  "a < length (nodes t) \<Longrightarrow> IsLeaf (nodes t ! a) \<or> int (length (Children (nodes t ! a))) = Node.Size (nodes t ! a) + 1
   \<Longrightarrow> normalizeChildren t (Some a) = Inr t"
  by (auto simp: normalizeChildren_def Let_def)

lemma finish_split:
  "X = S \<Longrightarrow> normalizeChildren S p = Inr S \<Longrightarrow> K S = Inr S
   \<Longrightarrow> andThen (normalizeChildren X p) K = Inr S"
  by simp

lemma splitChild_local:
  assumes pa: "pa < length (nodes t)"
    and ca: "Children (nodes t ! pa) ! i = Some ca" "ca < length (nodes t)" "ca \<noteq> pa"
    and i: "i < length (Children (nodes t ! pa))"
    and pshape: "\<not> IsLeaf (nodes t ! pa)"
      "Node.Size (nodes t ! pa) = int (length (Keys (nodes t ! pa)))"
      "length (Values (nodes t ! pa)) = length (Keys (nodes t ! pa))"
      "length (Children (nodes t ! pa)) = length (Keys (nodes t ! pa)) + 1"
    and d: "1 \<le> Degree t"
    and cfull: "length (Keys (nodes t ! ca)) = nat (2 * Degree t - 1)"
      "length (Values (nodes t ! ca)) = nat (2 * Degree t - 1)"
    and ckids: "\<not> IsLeaf (nodes t ! ca) \<Longrightarrow> length (Children (nodes t ! ca)) = nat (2 * Degree t)"
    and moved: "\<not> IsLeaf (nodes t ! ca) \<Longrightarrow>
       \<forall>x \<in> set (drop (nat (Degree t)) (Children (nodes t ! ca))).
         \<exists>b. x = Some b \<and> b < length (nodes t) \<and> b \<noteq> pa \<and> b \<noteq> ca"
    and inv0: "checkInvariants fuel t (Some ca) = Inr ()"
    and inv1: "checkInvariants fuel (splitSpec t pa i) (Some ca) = Inr ()"
    and inv2: "checkInvariants fuel (splitSpec t pa i) (Some (length (nodes t))) = Inr ()"
    and inv3: "checkInvariants fuel (splitSpec t pa i) (Some pa) = Inr ()"
  shows "splitChild fuel t (Some pa) (int i) = Inr (splitSpec t pa i)"
proof -
  have n1: "normalizeChildren t (Some pa) = Inr t"
    using pa pshape by (simp add: normalizeChildren_id)
  have lk: "length (drop (nat (Degree t)) (Keys (nodes t ! ca))) = nat (Degree t - 1)"
    "length (drop (nat (Degree t)) (Values (nodes t ! ca))) = nat (Degree t - 1)"
    using cfull d by auto
  have si: "nat (int i + 1) = Suc i" "nat (1 + int i) = Suc i" by simp_all
  have n2: "normalizeChildren (splitSpec t pa i) (Some pa) = Inr (splitSpec t pa i)"
    using pa ca i pshape
    by (intro normalizeChildren_id) (simp_all add: splitSpec_def Let_def)
  show ?thesis
  proof (cases "IsLeaf (nodes t ! ca)")
    case True
    show ?thesis
      unfolding splitChild_def
      using pa ca i pshape d cfull True inv0 n1 lk
      apply (simp add: idx_def Let_def alloc_def makeSlice_def sliceFrom_def sliceTo_def
          insertAt_def copySlice_same_length nth_append)
      apply (rule finish_split)
        apply (simp add: splitSpec_def Let_def nat_diff_distrib' si add.commute)
       apply (rule n2)
      apply (simp add: inv1 inv2 inv3)
      done
  next
    case False
    let ?upper = "drop (nat (Degree t)) (Children (nodes t ! ca))"
    have v: "\<forall>c \<in> set ?upper. \<exists>b. c = Some b \<and> b < Suc (length (nodes t))"
      using moved[OF False] by (meson less_Suc_eq)
    have nin: "Some ca \<notin> set ?upper" "Some pa \<notin> set ?upper"
      using moved[OF False] by auto
    have rp: "reparent t' ?upper q = Inr (t'\<lparr>nodes := setParents (nodes t') ?upper q\<rparr>)"
      if "length (nodes t') = Suc (length (nodes t))" for t' :: "'v Tree" and q
      using v that by (intro reparent_ok) simp
    show ?thesis
      unfolding splitChild_def
      using pa ca i pshape d cfull False inv0 n1 lk ckids[OF False] nin
      apply (simp add: idx_def Let_def alloc_def makeSlice_def sliceFrom_def sliceTo_def
          insertAt_def copySlice_same_length nth_append rp)
      apply (rule finish_split)
        apply (simp add: splitSpec_def Let_def nat_diff_distrib' si add.commute)
       apply (rule n2)
      apply (simp add: inv1 inv2 inv3)
      done
  qed
qed

lemma dataEq_refl [simp]: "dataEq n n"
  by (simp add: dataEq_def)

lemma dataEq_Parent [simp]: "dataEq (n\<lparr>Parent := p\<rparr>) n"
  by (simp add: dataEq_def)

lemma set_addrs_lt: "shaped t T \<Longrightarrow> a \<in> set (addrs T) \<Longrightarrow> a < length (nodes t)"
  by (induction T) auto

lemma root_in_addrs [simp]: "root T \<in> set (addrs T)"
  by (cases T) simp

lemma addrs_kid_subset: "k \<in> set ks \<Longrightarrow> set (addrs k) \<subseteq> set (addrs (Sk a ks))"
  by auto

lemma entries_frame:
  "(\<And>a. a \<in> set (addrs T) \<Longrightarrow> dataEq (nodes t' ! a) (nodes t ! a)) \<Longrightarrow> entries t' T = entries t T"
proof (induction T)
  case (Sk a ks)
  have "dataEq (nodes t' ! a) (nodes t ! a)" using Sk.prems[of a] by simp
  then have f: "Keys (nodes t' ! a) = Keys (nodes t ! a)" "Values (nodes t' ! a) = Values (nodes t ! a)"
    unfolding dataEq_def by (metis Node.select_convs Node.surjective Node.update_convs)+
  have m: "map (entries t') ks = map (entries t) ks"
    using Sk.IH Sk.prems by (intro map_cong) auto
  show ?case by (simp only: entries.simps f m)
qed

text \<open>The nodes of the heap after a split.\<close>

lemma splitSpec_fields [simp]:
  "Root (splitSpec t pa i) = Root t" "Degree (splitSpec t pa i) = Degree t"
  "Tree.Size (splitSpec t pa i) = Tree.Size t" "Height (splitSpec t pa i) = Height t"
  "Comparator (splitSpec t pa i) = Comparator t"
  "length (nodes (splitSpec t pa i)) = Suc (length (nodes t))"
  by (simp_all add: splitSpec_def Let_def)

lemma splitSpec_parent:
  "pa < length (nodes t) \<Longrightarrow>
   nodes (splitSpec t pa i) ! pa =
     (nodes t ! pa)\<lparr>Keys := take i (Keys (nodes t ! pa))
                 @ [Keys (nodes t ! the (Children (nodes t ! pa) ! i)) ! (nat (Degree t) - 1)]
                 @ drop i (Keys (nodes t ! pa)),
               Values := take i (Values (nodes t ! pa))
                 @ [Values (nodes t ! the (Children (nodes t ! pa) ! i)) ! (nat (Degree t) - 1)]
                 @ drop i (Values (nodes t ! pa)),
               Children := take (Suc i) (Children (nodes t ! pa)) @ [Some (length (nodes t))]
                 @ drop (Suc i) (Children (nodes t ! pa)),
               Node.Size := Node.Size (nodes t ! pa) + 1\<rparr>"
  by (simp add: splitSpec_def Let_def)

lemma splitSpec_child:
  "Children (nodes t ! pa) ! i = Some ca \<Longrightarrow> ca < length (nodes t) \<Longrightarrow> ca \<noteq> pa \<Longrightarrow>
   nodes (splitSpec t pa i) ! ca =
     (nodes t ! ca)\<lparr>Keys := take (nat (Degree t) - 1) (Keys (nodes t ! ca)),
               Values := take (nat (Degree t) - 1) (Values (nodes t ! ca)),
               Node.Size := Degree t - 1,
               Children := (if IsLeaf (nodes t ! ca) then Children (nodes t ! ca)
                            else take (nat (Degree t)) (Children (nodes t ! ca)))\<rparr>"
  by (simp add: splitSpec_def Let_def)

lemma splitSpec_sibling:
  "Children (nodes t ! pa) ! i = Some ca \<Longrightarrow> ca < length (nodes t) \<Longrightarrow> pa < length (nodes t) \<Longrightarrow>
   dataEq (nodes (splitSpec t pa i) ! length (nodes t))
     \<lparr>Keys = drop (nat (Degree t)) (Keys (nodes t ! ca)),
      Children = (if IsLeaf (nodes t ! ca) then [] else drop (nat (Degree t)) (Children (nodes t ! ca))),
      IsLeaf = IsLeaf (nodes t ! ca), Parent = Some pa, Node.Size = Degree t - 1,
      MaxKeys = 2 * Degree t - 1, MinKeys = Degree t - 1,
      Values = drop (nat (Degree t)) (Values (nodes t ! ca))\<rparr>"
  by (simp add: splitSpec_def Let_def nth_append dataEq_def)

lemma splitSpec_other:
  "b < length (nodes t) \<Longrightarrow> b \<noteq> pa \<Longrightarrow> b \<noteq> the (Children (nodes t ! pa) ! i) \<Longrightarrow>
   dataEq (nodes (splitSpec t pa i) ! b) (nodes t ! b)"
  by (simp add: splitSpec_def Let_def nth_append)

lemma splitSpec_untouched:
  "b < length (nodes t) \<Longrightarrow> b \<noteq> pa \<Longrightarrow> b \<noteq> the (Children (nodes t ! pa) ! i) \<Longrightarrow>
   Some b \<notin> set (Children (nodes t ! the (Children (nodes t ! pa) ! i))) \<Longrightarrow>
   nodes (splitSpec t pa i) ! b = nodes t ! b"
  by (auto simp: splitSpec_def Let_def nth_append dest: in_set_dropD)

lemma mset_zip_insert:
  assumes "length ks = length vs" "i \<le> length ks"
  shows "mset (zip (take i ks @ [k] @ drop i ks) (take i vs @ [v] @ drop i vs))
         = mset (zip ks vs) + {#(k, v)#}"
proof -
  have "zip ks vs = zip (take i ks @ drop i ks) (take i vs @ drop i vs)" by simp
  also have "\<dots> = zip (take i ks) (take i vs) @ zip (drop i ks) (drop i vs)"
    using assms by (intro zip_append) simp
  finally have a: "mset (zip ks vs) = mset (zip (take i ks) (take i vs)) + mset (zip (drop i ks) (drop i vs))"
    by simp
  have "zip (take i ks @ [k] @ drop i ks) (take i vs @ [v] @ drop i vs)
        = zip (take i ks) (take i vs) @ zip ([k] @ drop i ks) ([v] @ drop i vs)"
    using assms by (intro zip_append) simp
  then show ?thesis using a by simp
qed

lemma mset_zip_split:
  assumes "length ks = length vs" "j < length ks"
  shows "mset (zip ks vs) = mset (zip (take j ks) (take j vs)) + {#(ks ! j, vs ! j)#}
         + mset (zip (drop (Suc j) ks) (drop (Suc j) vs))"
proof -
  have k: "ks = take j ks @ ks ! j # drop (Suc j) ks" using assms by (simp add: id_take_nth_drop)
  have v: "vs = take j vs @ vs ! j # drop (Suc j) vs" using assms by (simp add: id_take_nth_drop)
  have "zip (take j ks @ ks ! j # drop (Suc j) ks) (take j vs @ vs ! j # drop (Suc j) vs)
        = zip (take j ks) (take j vs) @ zip (ks ! j # drop (Suc j) ks) (vs ! j # drop (Suc j) vs)"
    using assms by (intro zip_append) simp
  then have "mset (zip (take j ks @ ks ! j # drop (Suc j) ks) (take j vs @ vs ! j # drop (Suc j) vs))
        = mset (zip (take j ks) (take j vs)) + {#(ks ! j, vs ! j)#}
          + mset (zip (drop (Suc j) ks) (drop (Suc j) vs))" by simp
  then show ?thesis using k v by simp
qed

lemma height_le_iff: "height (Sk a ks) \<le> Suc n \<longleftrightarrow> (\<forall>k \<in> set ks. height k \<le> n)"
  by (simp add: Max_le_iff)

lemma height_Sk_le: "(\<And>k. k \<in> set ks \<Longrightarrow> \<exists>k' \<in> set ks'. height k \<le> height k')
   \<Longrightarrow> height (Sk a ks) \<le> height (Sk b ks')"
proof -
  assume h: "\<And>k. k \<in> set ks \<Longrightarrow> \<exists>k' \<in> set ks'. height k \<le> height k'"
  have "height k \<le> Max (set (0 # map height ks'))" if "k \<in> set ks" for k
  proof -
    from h[OF that] obtain k' where k': "k' \<in> set ks'" "height k \<le> height k'" by blast
    have "height k' \<le> Max (set (0 # map height ks'))" using k'(1) by (intro Max_ge) auto
    with k'(2) show ?thesis by linarith
  qed
  then have "Max (set (0 # map height ks)) \<le> Max (set (0 # map height ks'))"
    by (intro Max.boundedI) auto
  then show ?thesis by simp
qed

lemma split_skeleton:
  assumes sh: "shaped t (Sk pa (L @ Sk ca cks # R))"
    and dist: "distinct (addrs (Sk pa (L @ Sk ca cks # R)))"
    and full: "length (Keys (nodes t ! ca)) = nat (2 * Degree t - 1)"
    and d: "1 \<le> Degree t"
  defines "t' \<equiv> splitSpec t pa (length L)"
    and "C1 \<equiv> Sk ca (take (nat (Degree t)) cks)"
    and "C2 \<equiv> Sk (length (nodes t)) (drop (nat (Degree t)) cks)"
  shows "shaped t' (Sk pa (L @ C1 # C2 # R))"
    and "entries t' (Sk pa (L @ C1 # C2 # R)) = entries t (Sk pa (L @ Sk ca cks # R))"
    and "distinct (addrs (Sk pa (L @ C1 # C2 # R)))"
    and "set (addrs (Sk pa (L @ C1 # C2 # R)))
         = insert (length (nodes t)) (set (addrs (Sk pa (L @ Sk ca cks # R))))"
    and "height (Sk pa (L @ C1 # C2 # R)) \<le> height (Sk pa (L @ Sk ca cks # R))"
proof -
  let ?P = "Sk pa (L @ Sk ca cks # R)"
  let ?na = "length (nodes t)"
  let ?D = "nat (Degree t)"
  let ?p = "nodes t ! pa" and ?c = "nodes t ! ca"
  have lt: "a < ?na" if "a \<in> set (addrs ?P)" for a
    using set_addrs_lt[OF sh that] .
  have pa: "pa < ?na" and ca: "ca < ?na" using lt by simp_all
  have neq: "ca \<noteq> pa" using dist by auto
  have shC: "shaped t (Sk ca cks)" using sh by simp
  have chp: "Children ?p = map (\<lambda>k. Some (root k)) (L @ Sk ca cks # R)" using sh by simp
  then have chi: "Children ?p ! length L = Some ca" by (simp add: nth_append)
  have the_ca: "the (Children ?p ! length L) = ca" using chi by simp
  have pleaf: "\<not> IsLeaf ?p" using sh by (auto split: if_splits)
  have plen: "length L + length R + 1 = length (Keys ?p) + 1" using sh pleaf by simp
  have pvals: "length (Values ?p) = length (Keys ?p)" and psize: "Node.Size ?p = int (length (Keys ?p))"
    and pmax: "MaxKeys ?p = 2 * Degree t - 1"
    using sh by simp_all
  have cvals: "length (Values ?c) = length (Keys ?c)" and cmax: "MaxKeys ?c = 2 * Degree t - 1"
    and chc: "Children ?c = map (\<lambda>k. Some (root k)) cks"
    and ckl: "if IsLeaf ?c then cks = [] else length cks = length (Keys ?c) + 1"
    using shC by simp_all
  have nodeP: "nodes t' ! pa = ?p\<lparr>Keys := take (length L) (Keys ?p) @ [Keys ?c ! (?D - 1)] @ drop (length L) (Keys ?p),
       Values := take (length L) (Values ?p) @ [Values ?c ! (?D - 1)] @ drop (length L) (Values ?p),
       Children := take (Suc (length L)) (Children ?p) @ [Some ?na] @ drop (Suc (length L)) (Children ?p),
       Node.Size := Node.Size ?p + 1\<rparr>"
    unfolding t'_def using splitSpec_parent[OF pa, of "length L"] the_ca by simp
  have nodeC: "nodes t' ! ca = ?c\<lparr>Keys := take (?D - 1) (Keys ?c), Values := take (?D - 1) (Values ?c),
       Node.Size := Degree t - 1,
       Children := (if IsLeaf ?c then Children ?c else take ?D (Children ?c))\<rparr>"
    unfolding t'_def using splitSpec_child[OF chi ca neq] .
  have nodeN: "dataEq (nodes t' ! ?na)
     \<lparr>Keys = drop ?D (Keys ?c),
      Children = (if IsLeaf ?c then [] else drop ?D (Children ?c)),
      IsLeaf = IsLeaf ?c, Parent = Some pa, Node.Size = Degree t - 1,
      MaxKeys = 2 * Degree t - 1, MinKeys = Degree t - 1, Values = drop ?D (Values ?c)\<rparr>"
    unfolding t'_def using splitSpec_sibling[OF chi ca pa] .
  then have fN: "Keys (nodes t' ! ?na) = drop ?D (Keys ?c)" "Values (nodes t' ! ?na) = drop ?D (Values ?c)"
    "Children (nodes t' ! ?na) = (if IsLeaf ?c then [] else drop ?D (Children ?c))"
    "IsLeaf (nodes t' ! ?na) = IsLeaf ?c" "Node.Size (nodes t' ! ?na) = Degree t - 1"
    "MaxKeys (nodes t' ! ?na) = 2 * Degree t - 1"
    using dataEq_fields[OF nodeN] by simp_all
  have other: "dataEq (nodes t' ! b) (nodes t ! b)" if "b < ?na" "b \<noteq> pa" "b \<noteq> ca" for b
    unfolding t'_def using splitSpec_other[OF that(1,2), of "length L"] that(3) the_ca by simp
  have len': "length (nodes t') = Suc ?na" and deg': "Degree t' = Degree t"
    by (simp_all add: t'_def)
  have frame: "shaped t' k" if "shaped t k" "pa \<notin> set (addrs k)" "ca \<notin> set (addrs k)" for k
  proof (rule shaped_frame[OF that(1) deg'])
    fix a assume a: "a \<in> set (addrs k)"
    then have "a < ?na" using set_addrs_lt[OF that(1)] by simp
    moreover have "a \<noteq> pa" "a \<noteq> ca" using a that(2,3) by auto
    ultimately show "a < length (nodes t') \<and> dataEq (nodes t' ! a) (nodes t ! a)"
      using other len' by simp
  qed
  have eframe: "entries t' k = entries t k" if "shaped t k" "pa \<notin> set (addrs k)" "ca \<notin> set (addrs k)" for k
  proof (rule entries_frame)
    fix a assume a: "a \<in> set (addrs k)"
    then have "a < ?na" using set_addrs_lt[OF that(1)] by simp
    moreover have "a \<noteq> pa" "a \<noteq> ca" using a that(2,3) by auto
    ultimately show "dataEq (nodes t' ! a) (nodes t ! a)" using other by simp
  qed
  have kidL: "shaped t k \<and> pa \<notin> set (addrs k) \<and> ca \<notin> set (addrs k)" if "k \<in> set L" for k
    using sh dist that by auto
  have kidR: "shaped t k \<and> pa \<notin> set (addrs k) \<and> ca \<notin> set (addrs k)" if "k \<in> set R" for k
    using sh dist that by auto
  have kidC: "shaped t k \<and> pa \<notin> set (addrs k) \<and> ca \<notin> set (addrs k)" if "k \<in> set cks" for k
    using sh dist that by auto
  have Dpos: "?D - 1 < length (Keys ?c)" "?D \<le> length (Keys ?c)" "Suc (?D - 1) = ?D"
    using full d by auto
  have lens: "length (take (?D - 1) (Keys ?c)) = ?D - 1" "length (drop ?D (Keys ?c)) = ?D - 1"
    "int (?D - 1) = Degree t - 1"
    using full d by auto
  have shC1: "shaped t' C1"
  proof -
    have "shaped t' k" if "k \<in> set (take ?D cks)" for k
      using kidC[OF in_set_takeD[OF that]] frame by blast
    moreover have "take ?D (map (\<lambda>k. Some (root k)) cks) = map (\<lambda>k. Some (root k)) (take ?D cks)"
      by (simp add: take_map)
    moreover have "length (take ?D cks) = ?D" if "\<not> IsLeaf ?c"
      using ckl that full d by auto
    ultimately show ?thesis
      unfolding C1_def using ca len' deg' nodeC cvals cmax chc ckl lens Dpos
      by (auto simp add: min_def)
  qed
  have shC2: "shaped t' C2"
  proof -
    have "shaped t' k" if "k \<in> set (drop ?D cks)" for k
      using kidC[OF in_set_dropD[OF that]] frame by blast
    moreover have "drop ?D (map (\<lambda>k. Some (root k)) cks) = map (\<lambda>k. Some (root k)) (drop ?D cks)"
      by (simp add: drop_map)
    moreover have "length (drop ?D cks) = ?D" if "\<not> IsLeaf ?c"
      using ckl that full d by auto
    ultimately show ?thesis
      unfolding C2_def using len' deg' fN cvals chc ckl lens Dpos
      by auto
  qed
  have chP': "take (Suc (length L)) (Children ?p) @ [Some ?na] @ drop (Suc (length L)) (Children ?p)
      = map (\<lambda>k. Some (root k)) (L @ C1 # C2 # R)"
    unfolding chp by (simp add: C1_def C2_def)
  show "shaped t' (Sk pa (L @ C1 # C2 # R))"
  proof -
    have "shaped t' k" if "k \<in> set (L @ C1 # C2 # R)" for k
      using that shC1 shC2 kidL kidR frame by auto
    then show ?thesis
      using pa len' deg' nodeP chP' pleaf plen pvals psize pmax by simp
  qed
  have sumL: "map (entries t') L = map (entries t) L"
    using kidL eframe by (intro map_cong) auto
  have sumR: "map (entries t') R = map (entries t) R"
    using kidR eframe by (intro map_cong) auto
  have sumC: "map (entries t') cks = map (entries t) cks"
    using kidC eframe by (intro map_cong) auto
  have eC: "entries t' C1 + entries t' C2 + {#(Keys ?c ! (?D - 1), Values ?c ! (?D - 1))#}
            = entries t (Sk ca cks)"
  proof -
    have "sum_list (map (entries t') (take ?D cks)) + sum_list (map (entries t') (drop ?D cks))
          = sum_list (map (entries t') cks)"
      by (metis append_take_drop_id map_append sum_list_append)
    moreover have "mset (zip (Keys ?c) (Values ?c))
       = mset (zip (take (?D - 1) (Keys ?c)) (take (?D - 1) (Values ?c)))
         + {#(Keys ?c ! (?D - 1), Values ?c ! (?D - 1))#}
         + mset (zip (drop ?D (Keys ?c)) (drop ?D (Values ?c)))"
      using mset_zip_split[OF cvals[symmetric] Dpos(1)] Dpos(3) by simp
    ultimately show ?thesis
      unfolding C1_def C2_def using nodeC fN sumC by (simp add: ac_simps)
  qed
  show "entries t' (Sk pa (L @ C1 # C2 # R)) = entries t (Sk pa (L @ Sk ca cks # R))"
  proof -
    define e1 e2 e0 where "e1 = entries t' C1" and "e2 = entries t' C2"
      and "e0 = entries t (Sk ca cks)"
    have "length L \<le> length (Keys ?p)" using plen by simp
    from mset_zip_insert[OF pvals[symmetric] this]
    have mz: "mset (zip (Keys (nodes t' ! pa)) (Values (nodes t' ! pa)))
          = mset (zip (Keys ?p) (Values ?p)) + {#(Keys ?c ! (?D - 1), Values ?c ! (?D - 1))#}"
      unfolding nodeP by simp
    have l: "entries t' (Sk pa (L @ C1 # C2 # R))
        = mset (zip (Keys (nodes t' ! pa)) (Values (nodes t' ! pa)))
          + (sum_list (map (entries t) L) + (e1 + e2) + sum_list (map (entries t) R))"
      by (simp add: sumL sumR e1_def e2_def ac_simps)
    have r: "entries t (Sk pa (L @ Sk ca cks # R))
        = mset (zip (Keys ?p) (Values ?p))
          + (sum_list (map (entries t) L) + e0 + sum_list (map (entries t) R))"
      by (simp add: e0_def ac_simps)
    have "e1 + e2 + {#(Keys ?c ! (?D - 1), Values ?c ! (?D - 1))#} = e0"
      using eC by (simp only: e1_def e2_def e0_def)
    then show ?thesis
      unfolding l r mz by (auto simp: ac_simps)
  qed
  have fresh: "?na \<notin> set (addrs ?P)" using lt by blast
  have acks: "concat (map addrs cks) = concat (map addrs (take ?D cks)) @ concat (map addrs (drop ?D cks))"
    by (metis append_take_drop_id concat_append map_append)
  show "distinct (addrs (Sk pa (L @ C1 # C2 # R)))"
    using dist fresh unfolding C1_def C2_def by (simp add: acks; blast)
  show "set (addrs (Sk pa (L @ C1 # C2 # R))) = insert ?na (set (addrs ?P))"
    unfolding C1_def C2_def by (simp add: acks; blast)
  show "height (Sk pa (L @ C1 # C2 # R)) \<le> height ?P"
  proof (rule height_Sk_le)
    fix k assume "k \<in> set (L @ C1 # C2 # R)"
    moreover have "height C1 \<le> height (Sk ca cks)" unfolding C1_def
      by (rule height_Sk_le) (auto dest: in_set_takeD)
    moreover have "height C2 \<le> height (Sk ca cks)" unfolding C2_def
      by (rule height_Sk_le) (auto dest: in_set_dropD)
    ultimately show "\<exists>k' \<in> set (L @ Sk ca cks # R). height k \<le> height k'"
      by auto
  qed
qed

lemma scanDown_range:
  "- 1 \<le> i \<Longrightarrow> i < int (length ks) \<Longrightarrow> \<exists>j. scanDown cmp ks key i = Inr j \<and> - 1 \<le> j \<and> j \<le> i"
proof (induction cmp ks key i rule: scanDown.induct)
  case (1 cmp ks key i)
  show ?case
  proof (cases "i \<ge> 0")
    case False
    then show ?thesis using "1.prems" by (subst scanDown.simps) auto
  next
    case True
    then have ix: "idx ks i = Inr (ks ! nat i)" using "1.prems" by (simp add: idx_def)
    show ?thesis
    proof (cases "sint (cmp (ks ! nat i) key) > 0")
      case gt: True
      from "1.IH"[OF True gt] True "1.prems" obtain j where
        "scanDown cmp ks key (i - 1) = Inr j" "- 1 \<le> j" "j \<le> i - 1" by auto
      then show ?thesis using True ix gt by (subst scanDown.simps) auto
    next
      case False
      then show ?thesis using True ix by (subst scanDown.simps) auto
    qed
  qed
qed

declare height.simps [simp del]

lemma root_kid_in: "k \<in> set ks \<Longrightarrow> root k \<in> set (concat (map addrs ks))"
  using root_in_addrs[of k] by (auto intro: bexI[of _ k])

lemma shaped_kid: "shaped t (Sk a ks) \<Longrightarrow> k \<in> set ks \<Longrightarrow> shaped t k"
  by simp

lemma splitSpec_rest [simp]: "(splitSpec t pa i)\<lparr>nodes := nodes t\<rparr> = t"
  by (simp add: splitSpec_def Let_def)

lemma splitChild_shaped:
  assumes sh: "shaped t (Sk pa (L @ Sk ca cks # R))"
    and dist: "distinct (addrs (Sk pa (L @ Sk ca cks # R)))"
    and full: "length (Keys (nodes t ! ca)) = nat (2 * Degree t - 1)"
    and d: "1 \<le> Degree t"
    and fuel: "height (Sk pa (L @ Sk ca cks # R)) \<le> fuel"
  shows "splitChild fuel t (Some pa) (int (length L)) = Inr (splitSpec t pa (length L))"
proof -
  let ?P = "Sk pa (L @ Sk ca cks # R)"
  let ?D = "nat (Degree t)"
  let ?t' = "splitSpec t pa (length L)"
  let ?C1 = "Sk ca (take ?D cks)" and ?C2 = "Sk (length (nodes t)) (drop ?D cks)"
  let ?P' = "Sk pa (L @ ?C1 # ?C2 # R)"
  note sk = split_skeleton[OF sh dist full d]
  have lt: "a < length (nodes t)" if "a \<in> set (addrs ?P)" for a
    using set_addrs_lt[OF sh that] .
  have pa: "pa < length (nodes t)" and ca: "ca < length (nodes t)" using lt by simp_all
  have neq: "ca \<noteq> pa" using dist by auto
  have shC: "shaped t (Sk ca cks)" using sh by simp
  have chi: "Children (nodes t ! pa) ! length L = Some ca" using sh by (simp add: nth_append)
  have pleaf: "\<not> IsLeaf (nodes t ! pa)" using sh by (auto split: if_splits)
  have hP': "height ?P' \<le> fuel" using sk(5) fuel by linarith
  have hC: "height (Sk ca cks) \<le> fuel"
    using height_kid[of "Sk ca cks" "L @ Sk ca cks # R" pa] fuel by simp
  have hC1: "height ?C1 \<le> fuel"
    using height_kid[of ?C1 "L @ ?C1 # ?C2 # R" pa] hP' by simp
  have hC2: "height ?C2 \<le> fuel"
    using height_kid[of ?C2 "L @ ?C1 # ?C2 # R" pa] hP' by simp
  have shC1: "shaped ?t' ?C1" and shC2: "shaped ?t' ?C2"
    by (rule shaped_kid[OF sk(1)]; simp)+
  have moved: "\<forall>x \<in> set (drop ?D (Children (nodes t ! ca))).
         \<exists>b. x = Some b \<and> b < length (nodes t) \<and> b \<noteq> pa \<and> b \<noteq> ca"
  proof
    fix x assume "x \<in> set (drop ?D (Children (nodes t ! ca)))"
    then have "x \<in> set (map (\<lambda>k. Some (root k)) cks)" using shC by (auto dest: in_set_dropD)
    then obtain k where k: "k \<in> set cks" "x = Some (root k)" by auto
    have "root k \<in> set (addrs ?P)" using root_kid_in[OF k(1)] by simp
    moreover have "root k \<noteq> pa" "root k \<noteq> ca" using root_kid_in[OF k(1)] dist by auto
    ultimately show "\<exists>b. x = Some b \<and> b < length (nodes t) \<and> b \<noteq> pa \<and> b \<noteq> ca"
      using lt k(2) by blast
  qed
  show ?thesis
  proof (rule splitChild_local[OF pa chi ca neq])
    show "length L < length (Children (nodes t ! pa))" using sh by simp
    show "\<not> IsLeaf (nodes t ! pa)" by (rule pleaf)
    show "Node.Size (nodes t ! pa) = int (length (Keys (nodes t ! pa)))" using sh by simp
    show "length (Values (nodes t ! pa)) = length (Keys (nodes t ! pa))" using sh by simp
    show "length (Children (nodes t ! pa)) = length (Keys (nodes t ! pa)) + 1"
      using sh pleaf by simp
    show "1 \<le> Degree t" by (rule d)
    show "length (Keys (nodes t ! ca)) = nat (2 * Degree t - 1)" by (rule full)
    show "length (Values (nodes t ! ca)) = nat (2 * Degree t - 1)" using shC full by simp
    show "length (Children (nodes t ! ca)) = nat (2 * Degree t)" if "\<not> IsLeaf (nodes t ! ca)"
      using shC that full d by auto
    show "\<forall>x \<in> set (drop ?D (Children (nodes t ! ca))).
         \<exists>b. x = Some b \<and> b < length (nodes t) \<and> b \<noteq> pa \<and> b \<noteq> ca"
      by (rule moved)
    show "checkInvariants fuel t (Some ca) = Inr ()"
      using checkInvariants_shaped[OF shC hC] by simp
    show "checkInvariants fuel ?t' (Some ca) = Inr ()"
      using checkInvariants_shaped[OF shC1 hC1] by simp
    show "checkInvariants fuel ?t' (Some (length (nodes t))) = Inr ()"
      using checkInvariants_shaped[OF shC2 hC2] by simp
    show "checkInvariants fuel ?t' (Some pa) = Inr ()"
      using checkInvariants_shaped[OF sk(1) hP'] by simp
  qed
qed

lemma splitSpec_frame:
  assumes sh: "shaped t (Sk pa (L @ Sk ca cks # R))"
    and b: "b < length (nodes t)" "b \<notin> set (addrs (Sk pa (L @ Sk ca cks # R)))"
  shows "nodes (splitSpec t pa (length L)) ! b = nodes t ! b"
proof -
  have chi: "the (Children (nodes t ! pa) ! length L) = ca" using sh by (simp add: nth_append)
  have "Some b \<notin> set (Children (nodes t ! ca))"
  proof
    assume "Some b \<in> set (Children (nodes t ! ca))"
    then obtain k where "k \<in> set cks" "b = root k" using sh by auto
    then have "b \<in> set (addrs (Sk pa (L @ Sk ca cks # R)))" using root_kid_in[of k cks] by simp
    with b(2) show False by blast
  qed
  then show ?thesis
    using splitSpec_untouched[OF b(1), of pa "length L"] b(2) chi by auto
qed

section \<open>Insertion\<close>

lemma grown_fields:
  assumes "grown t T t' T'"
  shows "Root t' = Root t" "Degree t' = Degree t" "Tree.Size t' = Tree.Size t"
    "Height t' = Height t" "Comparator t' = Comparator t"
proof -
  have e: "t'\<lparr>nodes := nodes t\<rparr> = t" using assms by (simp add: grown_def)
  show "Root t' = Root t" "Degree t' = Degree t" "Tree.Size t' = Tree.Size t"
    "Height t' = Height t" "Comparator t' = Comparator t"
    using arg_cong[OF e, of Root] arg_cong[OF e, of Degree] arg_cong[OF e, of Tree.Size]
      arg_cong[OF e, of Height] arg_cong[OF e, of Comparator]
    by simp_all
qed

lemma grown_trans:
  assumes a: "grown t T t1 T1" and b: "grown t1 T1 t2 T2"
  shows "grown t T t2 T2"
proof -
  have fr: "nodes t2 ! x = nodes t ! x" if "x < length (nodes t)" "x \<notin> set (addrs T)" for x
  proof -
    have "x \<notin> set (addrs T1)" using a that unfolding grown_def by auto
    moreover have "x < length (nodes t1)" using a that unfolding grown_def by auto
    ultimately have "nodes t2 ! x = nodes t1 ! x" using b unfolding grown_def by blast
    then show ?thesis using a that unfolding grown_def by simp
  qed
  have e1: "t1\<lparr>nodes := nodes t\<rparr> = t" and e2: "t2\<lparr>nodes := nodes t1\<rparr> = t1"
    using a b by (simp_all add: grown_def)
  have "t2\<lparr>nodes := nodes t\<rparr> = (t2\<lparr>nodes := nodes t1\<rparr>)\<lparr>nodes := nodes t\<rparr>" by simp
  then have e: "t2\<lparr>nodes := nodes t\<rparr> = t" unfolding e2 e1 .
  have sub: "set (addrs T2) \<subseteq> set (addrs T) \<union> {length (nodes t)..<length (nodes t2)}"
  proof
    fix x assume x: "x \<in> set (addrs T2)"
    have l: "length (nodes t) \<le> length (nodes t1)" "length (nodes t1) \<le> length (nodes t2)"
      using a b unfolding grown_def by blast+
    have "x \<in> set (addrs T1) \<or> x \<in> {length (nodes t1)..<length (nodes t2)}"
      using b x unfolding grown_def by blast
    moreover have "x \<in> set (addrs T) \<or> x \<in> {length (nodes t)..<length (nodes t1)}"
      if "x \<in> set (addrs T1)"
      using a that unfolding grown_def by blast
    ultimately show "x \<in> set (addrs T) \<union> {length (nodes t)..<length (nodes t2)}"
      using l by auto
  qed
  show ?thesis
    unfolding grown_def
  proof (intro conjI allI impI)
    show "shaped t2 T2" using b unfolding grown_def by blast
    show "root T2 = root T" using a b unfolding grown_def by simp
    show "distinct (addrs T2)" using b unfolding grown_def by blast
    show "height T2 \<le> height T" using a b unfolding grown_def by linarith
    show "length (nodes t) \<le> length (nodes t2)" using a b unfolding grown_def by linarith
    show "set (addrs T2) \<subseteq> set (addrs T) \<union> {length (nodes t)..<length (nodes t2)}" by fact
    show "nodes t2 ! x = nodes t ! x" if "x < length (nodes t) \<and> x \<notin> set (addrs T)" for x
      using fr that by blast
    show "t2\<lparr>nodes := nodes t\<rparr> = t" by fact
  qed
qed

lemma split_grown:
  assumes sh: "shaped t (Sk pa (L @ Sk ca cks # R))"
    and dist: "distinct (addrs (Sk pa (L @ Sk ca cks # R)))"
    and full: "length (Keys (nodes t ! ca)) = nat (2 * Degree t - 1)"
    and d: "1 \<le> Degree t"
  shows "grown t (Sk pa (L @ Sk ca cks # R)) (splitSpec t pa (length L))
           (Sk pa (L @ Sk ca (take (nat (Degree t)) cks)
                     # Sk (length (nodes t)) (drop (nat (Degree t)) cks) # R))"
proof -
  note sk = split_skeleton[OF sh dist full d]
  show ?thesis
    unfolding grown_def
  proof (intro conjI allI impI)
    show "nodes (splitSpec t pa (length L)) ! b = nodes t ! b"
      if "b < length (nodes t) \<and> b \<notin> set (addrs (Sk pa (L @ Sk ca cks # R)))" for b
      using splitSpec_frame[OF sh] that by blast
  qed (use sk in \<open>simp_all del: addrs.simps shaped.simps\<close>)
qed

lemma distinct_addrs_decomp:
  "distinct (addrs (Sk a (L @ C # R))) \<longleftrightarrow>
     a \<notin> set (concat (map addrs L)) \<and> a \<notin> set (addrs C) \<and> a \<notin> set (concat (map addrs R)) \<and>
     distinct (concat (map addrs L)) \<and> distinct (addrs C) \<and> distinct (concat (map addrs R)) \<and>
     set (concat (map addrs L)) \<inter> set (addrs C) = {} \<and>
     set (concat (map addrs L)) \<inter> set (concat (map addrs R)) = {} \<and>
     set (addrs C) \<inter> set (concat (map addrs R)) = {}"
  by (simp del: set_concat add: Int_Un_distrib) blast

lemma set_addrs_decomp:
  "set (addrs (Sk a (L @ C # R))) =
     insert a (set (concat (map addrs L)) \<union> set (addrs C) \<union> set (concat (map addrs R)))"
  by (simp del: set_concat) blast

lemma grown_descend:
  assumes sh: "shaped t (Sk a (L @ C # R))"
    and dist: "distinct (addrs (Sk a (L @ C # R)))"
    and g: "grown t C t' C'"
    and e: "entries t' C' = entries t C + X"
  shows "grown t (Sk a (L @ C # R)) t' (Sk a (L @ C' # R))"
    and "entries t' (Sk a (L @ C' # R)) = entries t (Sk a (L @ C # R)) + X"
proof -
  let ?T = "Sk a (L @ C # R)" and ?T' = "Sk a (L @ C' # R)"
  have lt: "b < length (nodes t)" if "b \<in> set (addrs ?T)" for b
    using set_addrs_lt[OF sh that] .
  have g_sh: "shaped t' C'" and g_root: "root C' = root C" and g_dist: "distinct (addrs C')"
    and g_h: "height C' \<le> height C" and g_len: "length (nodes t) \<le> length (nodes t')"
    and g_sub: "set (addrs C') \<subseteq> set (addrs C) \<union> {length (nodes t)..<length (nodes t')}"
    and g_fr: "\<And>b. b < length (nodes t) \<Longrightarrow> b \<notin> set (addrs C) \<Longrightarrow> nodes t' ! b = nodes t ! b"
    and g_e: "t'\<lparr>nodes := nodes t\<rparr> = t"
    using g unfolding grown_def by auto
  have deg: "Degree t' = Degree t" using grown_fields(2)[OF g] .
  have same: "nodes t' ! b = nodes t ! b" if "b \<in> set (addrs ?T)" "b \<notin> set (addrs C)" for b
    using g_fr[OF lt[OF that(1)] that(2)] .
  have aC: "a \<notin> set (addrs C)" using dist by simp
  have na: "nodes t' ! a = nodes t ! a" using same[of a] aC by simp
  have kid: "shaped t' k \<and> entries t' k = entries t k" if "k \<in> set L \<or> k \<in> set R" for k
  proof -
    have shk: "shaped t k" using sh that by auto
    have dis: "set (addrs k) \<inter> set (addrs C) = {}" using dist that by auto
    have sub: "set (addrs k) \<subseteq> set (addrs ?T)" using that by auto
    have eq: "nodes t' ! b = nodes t ! b" if "b \<in> set (addrs k)" for b
      using same[of b] that dis sub by blast
    have "b < length (nodes t') \<and> dataEq (nodes t' ! b) (nodes t ! b)" if "b \<in> set (addrs k)" for b
    proof -
      have "b \<in> set (addrs ?T)" using that sub by blast
      then have "b < length (nodes t')" using lt[of b] g_len by linarith
      then show ?thesis using eq[OF that] by simp
    qed
    then have "shaped t' k"
      by (rule shaped_frame[OF shk deg])
    moreover have "entries t' k = entries t k"
      by (rule entries_frame) (simp add: eq)
    ultimately show ?thesis by simp
  qed
  have shT': "shaped t' ?T'"
  proof -
    have "shaped t' k" if "k \<in> set (L @ C' # R)" for k
      using that kid g_sh by auto
    then show ?thesis using sh lt[of a] g_len na deg g_root by (auto split: if_splits)
  qed
  have old: "set (addrs ?T) \<inter> {length (nodes t)..<length (nodes t')} = {}"
    using lt by fastforce
  have distT': "distinct (addrs ?T')"
  proof -
    define AL AR AC AC' F where "AL = set (concat (map addrs L))"
      and "AR = set (concat (map addrs R))" and "AC = set (addrs C)"
      and "AC' = set (addrs C')" and "F = {length (nodes t)..<length (nodes t')}"
    have 1: "a \<notin> AL" "a \<notin> AC" "a \<notin> AR" "AL \<inter> AC = {}" "AL \<inter> AR = {}" "AC \<inter> AR = {}"
      and 2: "distinct (concat (map addrs L))" "distinct (concat (map addrs R))"
      using dist unfolding distinct_addrs_decomp AL_def AR_def AC_def by blast+
    have 3: "AC' \<subseteq> AC \<union> F" using g_sub unfolding AC'_def AC_def F_def .
    have 4: "(insert a (AL \<union> AC \<union> AR)) \<inter> F = {}"
      using old unfolding set_addrs_decomp AL_def AR_def AC_def F_def .
    have "a \<notin> AC'" "AL \<inter> AC' = {}" "AC' \<inter> AR = {}"
      using 1 3 4 by blast+
    then show ?thesis
      unfolding distinct_addrs_decomp using 1 2 g_dist
      unfolding AL_def AR_def AC_def AC'_def by blast
  qed
  have hT': "height ?T' \<le> height ?T"
  proof (rule height_Sk_le)
    fix k assume "k \<in> set (L @ C' # R)"
    then show "\<exists>k' \<in> set (L @ C # R). height k \<le> height k'"
      using g_h by auto
  qed
  have subT': "set (addrs ?T') \<subseteq> set (addrs ?T) \<union> {length (nodes t)..<length (nodes t')}"
    using g_sub unfolding set_addrs_decomp by blast
  have frT': "nodes t' ! b = nodes t ! b" if "b < length (nodes t)" "b \<notin> set (addrs ?T)" for b
    using g_fr[OF that(1)] that(2) by simp
  show "grown t ?T t' ?T'"
    unfolding grown_def
  proof (intro conjI allI impI)
    show "shaped t' ?T'" by fact
    show "root ?T' = root ?T" by simp
    show "distinct (addrs ?T')" by fact
    show "height ?T' \<le> height ?T" by fact
    show "length (nodes t) \<le> length (nodes t')" by fact
    show "set (addrs ?T') \<subseteq> set (addrs ?T) \<union> {length (nodes t)..<length (nodes t')}" by fact
    show "nodes t' ! b = nodes t ! b" if "b < length (nodes t) \<and> b \<notin> set (addrs ?T)" for b
      using frT' that by blast
    show "t'\<lparr>nodes := nodes t\<rparr> = t" by fact
  qed
  have mL: "map (entries t') L = map (entries t) L" using kid by (intro map_cong) auto
  have mR: "map (entries t') R = map (entries t) R" using kid by (intro map_cong) auto
  show "entries t' ?T' = entries t ?T + X"
    by (simp add: na mL mR e)
qed

subsection \<open>The scan position\<close>

lemma list_all_drop: "list_all P (drop n xs) = (\<forall>p. n \<le> p \<and> p < length xs \<longrightarrow> P (xs ! p))"
proof -
  have "(\<forall>i < length xs - n. P (xs ! (n + i))) = (\<forall>p. n \<le> p \<and> p < length xs \<longrightarrow> P (xs ! p))"
  proof safe
    fix p assume h: "\<forall>i < length xs - n. P (xs ! (n + i))" "n \<le> p" "p < length xs"
    then have "p - n < length xs - n" by simp
    with h(1) have "P (xs ! (n + (p - n)))" by blast
    then show "P (xs ! p)" using h(2) by simp
  qed simp
  then show ?thesis by (simp add: list_all_length)
qed

lemma scanDown_spec:
  "- 1 \<le> i \<Longrightarrow> i < int (length ks) \<Longrightarrow> scanDown cmp ks key i = Inr j \<Longrightarrow>
   (\<forall>p. j < int p \<and> int p \<le> i \<longrightarrow> 0 < sint (cmp (ks ! p) key))
   \<and> (0 \<le> j \<longrightarrow> \<not> 0 < sint (cmp (ks ! nat j) key))"
proof (induction cmp ks key i rule: scanDown.induct)
  case (1 cmp ks key i)
  show ?case
  proof (cases "i \<ge> 0")
    case False
    then have "j = i" using "1.prems"(3) by (subst (asm) scanDown.simps) simp
    then show ?thesis using False by auto
  next
    case True
    then have ix: "idx ks i = Inr (ks ! nat i)" using "1.prems" by (simp add: idx_def)
    show ?thesis
    proof (cases "sint (cmp (ks ! nat i) key) > 0")
      case gt: True
      have r: "scanDown cmp ks key (i - 1) = Inr j"
        using "1.prems"(3) True ix gt by (subst (asm) scanDown.simps) simp
      from "1.IH"[OF True gt _ _ r] True "1.prems" have
        ih: "\<forall>p. j < int p \<and> int p \<le> i - 1 \<longrightarrow> 0 < sint (cmp (ks ! p) key)"
          "0 \<le> j \<longrightarrow> \<not> 0 < sint (cmp (ks ! nat j) key)" by auto
      have "0 < sint (cmp (ks ! p) key)" if "j < int p" "int p \<le> i" for p
      proof (cases "int p = i")
        case True
        then have "nat i = p" by simp
        then show ?thesis using gt by simp
      next
        case False
        then show ?thesis using ih(1) that by simp
      qed
      then show ?thesis using ih(2) by blast
    next
      case False
      then have "j = i" using "1.prems"(3) True ix by (subst (asm) scanDown.simps) simp
      then show ?thesis using False by auto
    qed
  qed
qed

lemma leafPos_insert:
  assumes j: "scanDown cmp ks k (int (length ks) - 1) = Inr j" and m: "m = nat (j + 1)"
    and r: "- 1 \<le> j" "j \<le> int (length ks) - 1"
  shows "leafPos cmp (take m ks @ [k] @ drop m ks) k m"
proof -
  note sp = scanDown_spec[OF _ _ j]
  have ml: "m \<le> length ks" using r m by simp
  have gt: "0 < sint (cmp (ks ! p) k)" if "m \<le> p" "p < length ks" for p
    using sp that m r by auto
  have le: "\<not> 0 < sint (cmp (ks ! (m - 1)) k)" if "0 < m"
  proof -
    have "0 \<le> j" "nat j = m - 1" using that m by auto
    then show ?thesis using sp by auto
  qed
  have d1: "drop (Suc m) (take m ks @ [k] @ drop m ks) = drop m ks" using ml by simp
  have d2: "drop (m - 1) (take m (take m ks @ [k] @ drop m ks)) = drop (m - 1) (take m ks)"
    using ml by simp
  have a1: "list_all (\<lambda>x. 0 < sint (cmp x k)) (drop m ks)"
    unfolding list_all_drop using gt by blast
  have a2: "list_all (\<lambda>x. \<not> 0 < sint (cmp x k)) (drop (m - 1) (take m ks))"
    unfolding list_all_drop
  proof (intro allI impI)
    fix p assume "m - 1 \<le> p \<and> p < length (take m ks)"
    then have "0 < m" "p = m - 1" using ml by auto
    then show "\<not> 0 < sint (cmp (take m ks ! p) k)" using le by simp
  qed
  show ?thesis unfolding leafPos_def d1 d2 using ml a1 a2 by (simp add: nth_append)
qed

lemma scanPos_eq:
  assumes "m \<le> length ks \<and> (\<forall>p. m \<le> p \<and> p < length ks \<longrightarrow> 0 < sint (cmp (ks ! p) k))
         \<and> (0 < m \<longrightarrow> \<not> 0 < sint (cmp (ks ! (m - 1)) k))"
  shows "scanPos cmp ks k = m"
proof -
  let ?P = "\<lambda>x. 0 < sint (cmp x k)"
  have ml: "m \<le> length ks" using assms by simp
  have r: "rev ks = rev (drop m ks) @ rev (take m ks)"
    by (simp flip: rev_append)
  have a: "\<And>x. x \<in> set (rev (drop m ks)) \<Longrightarrow> ?P x"
  proof -
    have "list_all ?P (drop m ks)" unfolding list_all_drop using assms by blast
    then show "\<And>x. x \<in> set (rev (drop m ks)) \<Longrightarrow> ?P x" by (simp add: list_all_iff)
  qed
  have b: "takeWhile ?P (rev (take m ks)) = []"
  proof (cases m)
    case (Suc n)
    then have "take m ks = take n ks @ [ks ! n]" using ml by (simp add: take_Suc_conv_app_nth)
    moreover have "\<not> ?P (ks ! n)" using assms Suc by simp
    ultimately show ?thesis by simp
  qed simp
  have "takeWhile ?P (rev ks) = rev (drop m ks)"
    unfolding r by (subst takeWhile_append2) (use a b in auto)
  then show ?thesis using ml by (simp add: scanPos_def)
qed

lemma placed_leafI:
  "IsLeaf (nodes t ! a) \<Longrightarrow> j < length (Keys (nodes t ! a)) \<Longrightarrow>
   leafPos (Comparator t) (Keys (nodes t ! a)) k j \<Longrightarrow> Values (nodes t ! a) ! j = v \<Longrightarrow>
   placed t k v (Sk a ks)"
  by (subst placed.simps) (auto simp: list_ex_iff Let_def)

lemma placed_innerI:
  "\<not> IsLeaf (nodes t ! a) \<Longrightarrow> c < length ks \<Longrightarrow>
   childPos (Comparator t) (Keys (nodes t ! a)) k c \<Longrightarrow> placed t k v (ks ! c) \<Longrightarrow>
   placed t k v (Sk a ks)"
  by (subst placed.simps) (auto simp: list_ex_iff Let_def)

lemma placed_nodes_cong:
  "nodes t' = nodes t \<Longrightarrow> Comparator t' = Comparator t \<Longrightarrow> placed t' k v T = placed t k v T"
proof (induction T)
  case (Sk a ks)
  have "placed t' k v (ks ! c) = placed t k v (ks ! c)" if "c < length ks" for c
    using Sk.IH[OF nth_mem[OF that] Sk.prems] .
  then show ?case using Sk.prems
    by (subst (1 2) placed.simps) (auto simp: list_ex_iff Let_def)
qed

lemma scanDown_pos:
  assumes j: "scanDown cmp ks k (int (length ks) - 1) = Inr j" and m: "m = nat (j + 1)"
    and r: "- 1 \<le> j" "j \<le> int (length ks) - 1"
  shows "m \<le> length ks \<and> (\<forall>p. m \<le> p \<and> p < length ks \<longrightarrow> 0 < sint (cmp (ks ! p) k))
         \<and> (0 < m \<longrightarrow> \<not> 0 < sint (cmp (ks ! (m - 1)) k))"
proof -
  note sp = scanDown_spec[OF _ _ j]
  have ml: "m \<le> length ks" using r m by simp
  have gt: "0 < sint (cmp (ks ! p) k)" if "m \<le> p" "p < length ks" for p
    using sp that m r by auto
  have le: "\<not> 0 < sint (cmp (ks ! (m - 1)) k)" if "0 < m"
  proof -
    have "0 \<le> j" "nat j = m - 1" using that m by auto
    then show ?thesis using sp by auto
  qed
  show ?thesis using ml gt le by blast
qed

lemma childPos_iff:
  "childPos cmp ks k c \<longleftrightarrow>
     c \<le> length ks \<and> (\<forall>p. c < p \<and> p < length ks \<longrightarrow> 0 < sint (cmp (ks ! p) k)) \<and>
     (c < length ks \<longrightarrow> \<not> sint (cmp (ks ! c) k) < 0) \<and>
     (0 < c \<longrightarrow> \<not> 0 < sint (cmp (ks ! (c - 1)) k))"
proof (cases "c \<le> length ks")
  case False
  then show ?thesis by (simp add: childPos_def)
next
  case True
  have a: "list_all (\<lambda>x. 0 < sint (cmp x k)) (drop (Suc c) ks)
        \<longleftrightarrow> (\<forall>p. c < p \<and> p < length ks \<longrightarrow> 0 < sint (cmp (ks ! p) k))"
    by (simp add: list_all_drop Suc_le_eq)
  have b: "list_all (\<lambda>x. \<not> sint (cmp x k) < 0) (take 1 (drop c ks))
        \<longleftrightarrow> (c < length ks \<longrightarrow> \<not> sint (cmp (ks ! c) k) < 0)"
  proof (cases "c < length ks")
    case True
    then have "take 1 (drop c ks) = [ks ! c]"
      by (simp add: take_Suc_conv_app_nth)
    then show ?thesis using True by simp
  qed simp
  have d: "list_all (\<lambda>x. \<not> 0 < sint (cmp x k)) (drop (c - 1) (take c ks))
        \<longleftrightarrow> (0 < c \<longrightarrow> \<not> 0 < sint (cmp (ks ! (c - 1)) k))"
  proof (cases c)
    case (Suc n)
    then have "take c ks = take n ks @ [ks ! n]" using True by (simp add: take_Suc_conv_app_nth)
    then have "drop (c - 1) (take c ks) = [ks ! n]" using True Suc by simp
    then show ?thesis using Suc by simp
  qed simp
  show ?thesis unfolding childPos_def a b d using True by simp
qed

lemma childPos_scan:
  assumes "m \<le> length ks \<and> (\<forall>p. m \<le> p \<and> p < length ks \<longrightarrow> 0 < sint (cmp (ks ! p) k))
         \<and> (0 < m \<longrightarrow> \<not> 0 < sint (cmp (ks ! (m - 1)) k))"
  shows "childPos cmp ks k m"
  unfolding childPos_iff using assms by (auto simp: not_less dest: order.strict_implies_order)

lemma childPos_split_left:
  assumes "m \<le> length ks \<and> (\<forall>p. m \<le> p \<and> p < length ks \<longrightarrow> 0 < sint (cmp (ks ! p) k))
         \<and> (0 < m \<longrightarrow> \<not> 0 < sint (cmp (ks ! (m - 1)) k))"
    and "\<not> sint (cmp x k) < 0"
  shows "childPos cmp (take m ks @ [x] @ drop m ks) k m"
  unfolding childPos_iff
proof (intro conjI allI impI)
  show "m \<le> length (take m ks @ [x] @ drop m ks)" using assms by simp
  show "0 < sint (cmp ((take m ks @ [x] @ drop m ks) ! p) k)"
    if "m < p \<and> p < length (take m ks @ [x] @ drop m ks)" for p
  proof -
    have "(take m ks @ [x] @ drop m ks) ! p = ks ! (p - 1)"
      using that assms(1) by (cases p) (auto simp: nth_append)
    moreover have "m \<le> p - 1" "p - 1 < length ks" using that assms(1) by auto
    ultimately show ?thesis using assms(1) by simp
  qed
  show "\<not> sint (cmp ((take m ks @ [x] @ drop m ks) ! m) k) < 0"
    using assms by (simp add: nth_append)
  show "\<not> 0 < sint (cmp ((take m ks @ [x] @ drop m ks) ! (m - 1)) k)" if "0 < m"
    using that assms(1) by (simp add: nth_append)
qed

lemma childPos_split_right:
  assumes "m \<le> length ks \<and> (\<forall>p. m \<le> p \<and> p < length ks \<longrightarrow> 0 < sint (cmp (ks ! p) k))
         \<and> (0 < m \<longrightarrow> \<not> 0 < sint (cmp (ks ! (m - 1)) k))"
    and "sint (cmp x k) < 0"
  shows "childPos cmp (take m ks @ [x] @ drop m ks) k (Suc m)"
  unfolding childPos_iff
proof (intro conjI allI impI)
  show "Suc m \<le> length (take m ks @ [x] @ drop m ks)" using assms by simp
  show "0 < sint (cmp ((take m ks @ [x] @ drop m ks) ! p) k)"
    if "Suc m < p \<and> p < length (take m ks @ [x] @ drop m ks)" for p
  proof -
    have "(take m ks @ [x] @ drop m ks) ! p = ks ! (p - 1)"
      using that assms(1) by (cases p) (auto simp: nth_append)
    moreover have "m \<le> p - 1" "p - 1 < length ks" using that assms(1) by auto
    ultimately show ?thesis using assms(1) by simp
  qed
  show "\<not> sint (cmp ((take m ks @ [x] @ drop m ks) ! Suc m) k) < 0"
    if "Suc m < length (take m ks @ [x] @ drop m ks)"
  proof -
    have "(take m ks @ [x] @ drop m ks) ! Suc m = ks ! m"
      using that assms(1) by (auto simp: nth_append)
    moreover have "0 < sint (cmp (ks ! m) k)" using that assms(1) by simp
    ultimately show ?thesis by simp
  qed
  show "\<not> 0 < sint (cmp ((take m ks @ [x] @ drop m ks) ! (Suc m - 1)) k)"
    using assms by (simp add: nth_append)
qed

lemma placed_descend:
  assumes a: "a < length (nodes t)"
    and dist: "distinct (addrs (Sk a (L @ C # R)))"
    and g: "grown t C t' C'"
    and nl: "\<not> IsLeaf (nodes t ! a)"
    and cp: "childPos (Comparator t) (Keys (nodes t ! a)) k (length L)"
    and p: "placed t' k v C'"
  shows "placed t' k v (Sk a (L @ C' # R))"
proof -
  have "a \<notin> set (addrs C)" using dist unfolding distinct_addrs_decomp by blast
  with a g have n: "nodes t' ! a = nodes t ! a" unfolding grown_def by blast
  have c: "Comparator t' = Comparator t" by (rule grown_fields(5)[OF g])
  show ?thesis
    by (rule placed_innerI[of _ _ "length L"]) (use n c nl cp p in simp_all)
qed

lemma insertAt_ok:
  "0 \<le> j \<Longrightarrow> j \<le> int (length xs) \<Longrightarrow> insertAt xs j x = Inr (take (nat j) xs @ [x] @ drop (nat j) xs)"
  by (simp add: insertAt_def sliceTo_def sliceFrom_def)

lemma idx_ok: "0 \<le> i \<Longrightarrow> i < int (length xs) \<Longrightarrow> idx xs i = Inr (xs ! nat i)"
  by (simp add: idx_def)

lemma insert_leaf:
  assumes sh: "shaped t (Sk a [])" and leaf: "IsLeaf (nodes t ! a)"
  shows "\<exists>t'. insertNonFull (Suc fuel) t (Some a) k v = Inr t' \<and> grown t (Sk a []) t' (Sk a [])
           \<and> entries t' (Sk a []) = entries t (Sk a []) + {#(k, v)#}
           \<and> placed t' k v (Sk a [])
           \<and> t' = insertNonFullSpec (Suc fuel) t a k v"
proof -
  let ?n = "nodes t ! a"
  have a: "a < length (nodes t)" and sz: "Node.Size ?n = int (length (Keys ?n))"
    and vl: "length (Values ?n) = length (Keys ?n)" and mx: "MaxKeys ?n = 2 * Degree t - 1"
    and ch: "Children ?n = []"
    using sh by simp_all
  obtain j where j: "scanDown (Comparator t) (Keys ?n) k (Node.Size ?n - 1) = Inr j"
    "- 1 \<le> j" "j \<le> Node.Size ?n - 1"
    using scanDown_range[of "Node.Size ?n - 1" "Keys ?n" "Comparator t" k] sz by auto
  define m where "m = nat (j + 1)"
  have m: "m \<le> length (Keys ?n)" "0 \<le> j + 1" "j + 1 \<le> int (length (Keys ?n))"
    "j + 1 \<le> int (length (Values ?n))"
    using j sz vl by (auto simp: m_def)
  define n' where "n' = ?n\<lparr>Keys := take m (Keys ?n) @ [k] @ drop m (Keys ?n),
     Values := take m (Values ?n) @ [v] @ drop m (Values ?n), Node.Size := Node.Size ?n + 1\<rparr>"
  define t' where "t' = t\<lparr>nodes := (nodes t)[a := n']\<rparr>"
  have run: "insertNonFull (Suc fuel) t (Some a) k v = Inr t'"
    using a leaf j(1) m(2,3,4)
    by (simp add: insertAt_ok m_def[symmetric] t'_def n'_def)
  have na: "nodes t' ! a = n'" using a by (simp add: t'_def)
  have sh': "shaped t' (Sk a [])"
    using a sz vl mx ch leaf m(1) by (simp add: na) (simp add: n'_def t'_def)
  have gr: "grown t (Sk a []) t' (Sk a [])"
    unfolding grown_def
  proof (intro conjI allI impI)
    show "shaped t' (Sk a [])" by fact
    show "t'\<lparr>nodes := nodes t\<rparr> = t" by (simp add: t'_def)
    show "nodes t' ! b = nodes t ! b" if "b < length (nodes t) \<and> b \<notin> set (addrs (Sk a []))" for b
      using that by (simp add: t'_def)
  qed (simp_all add: t'_def)
  have "entries t' (Sk a []) = entries t (Sk a []) + {#(k, v)#}"
    using mset_zip_insert[OF vl[symmetric] m(1), of k v] by (simp add: na) (simp add: n'_def)
  moreover have "placed t' k v (Sk a [])"
  proof (rule placed_leafI[of _ _ m])
    show "IsLeaf (nodes t' ! a)" using leaf by (simp add: na) (simp add: n'_def)
    show "m < length (Keys (nodes t' ! a))" using m(1) by (simp add: na) (simp add: n'_def)
    have "leafPos (Comparator t) (take m (Keys ?n) @ [k] @ drop m (Keys ?n)) k m"
      by (rule leafPos_insert[OF j(1)[unfolded sz] m_def j(2) j(3)[unfolded sz]])
    then show "leafPos (Comparator t') (Keys (nodes t' ! a)) k m"
      by (simp add: na) (simp add: n'_def t'_def)
    show "Values (nodes t' ! a) ! m = v"
      using m(1) vl by (simp add: na) (simp add: n'_def nth_append)
  qed
  moreover have "t' = insertNonFullSpec (Suc fuel) t a k v"
  proof -
    have "scanPos (Comparator t) (Keys ?n) k = m"
      by (rule scanPos_eq[where cmp = "Comparator t" and ks = "Keys ?n" and k = k and m = m,
            OF scanDown_pos[OF j(1)[unfolded sz] m_def j(2) j(3)[unfolded sz]]])
    then show ?thesis
      using leaf by (simp add: insertNonFullSpec.simps Let_def t'_def n'_def)
  qed
  ultimately show ?thesis using run gr by blast
qed

lemma idx_nat: "n < length xs \<Longrightarrow> idx xs (int n) = Inr (xs ! n)"
  by (simp add: idx_def)

lemma height_pos: "0 < height T"
  by (cases T) (simp add: height.simps)

lemma insertNonFull_grows:
  "shaped t T \<Longrightarrow> distinct (addrs T) \<Longrightarrow> height T \<le> fuel \<Longrightarrow> 1 \<le> Degree t \<Longrightarrow>
   \<exists>t' T'. insertNonFull (Suc fuel) t (Some (root T)) k v = Inr t' \<and> grown t T t' T'
           \<and> entries t' T' = entries t T + {#(k, v)#} \<and> placed t' k v T'
           \<and> t' = insertNonFullSpec (Suc fuel) t (root T) k v"
proof (induction fuel arbitrary: t T)
  case 0
  then show ?case using height_pos[of T] by simp
next
  case (Suc f)
  obtain a ks where T: "T = Sk a ks" by (cases T)
  let ?n = "nodes t ! a"
  have sh: "shaped t (Sk a ks)" and dist: "distinct (addrs (Sk a ks))"
    and hT: "height (Sk a ks) \<le> Suc f" and d: "1 \<le> Degree t"
    using Suc.prems unfolding T by simp_all
  have a: "a < length (nodes t)" and sz: "Node.Size ?n = int (length (Keys ?n))"
    and ch: "Children ?n = map (\<lambda>k. Some (root k)) ks"
    using sh by simp_all
  show ?case
  proof (cases "IsLeaf ?n")
    case True
    then have e: "ks = []" using sh by simp
    have sh0: "shaped t (Sk a [])" using sh unfolding e .
    from insert_leaf[OF sh0 True, of "Suc f" k v] show ?thesis
      unfolding T e skel.sel by blast
  next
    case False
    then have kl: "length ks = length (Keys ?n) + 1" using sh by simp
    obtain j where j: "scanDown (Comparator t) (Keys ?n) k (Node.Size ?n - 1) = Inr j"
      "- 1 \<le> j" "j \<le> Node.Size ?n - 1"
      using scanDown_range[of "Node.Size ?n - 1" "Keys ?n" "Comparator t" k] sz by auto
    define m where "m = nat (j + 1)"
    have m: "m < length ks" "int m = j + 1" using j sz kl by (auto simp: m_def)
    note scan = scanDown_pos[OF j(1)[unfolded sz] m_def j(2) j(3)[unfolded sz]]
    define L R where "L = take m ks" and "R = drop (Suc m) ks"
    obtain ca cks where C: "ks ! m = Sk ca cks" by (cases "ks ! m")
    have ks: "ks = L @ Sk ca cks # R" and lenL: "length L = m"
      using id_take_nth_drop[OF m(1)] m(1) C by (simp_all add: L_def R_def)
    have shT: "shaped t (Sk a (L @ Sk ca cks # R))" using sh unfolding ks .
    have distT: "distinct (addrs (Sk a (L @ Sk ca cks # R)))" using dist unfolding ks .
    have hT': "height (Sk a (L @ Sk ca cks # R)) \<le> Suc f" using hT unfolding ks .
    have shC: "shaped t (Sk ca cks)" by (rule shaped_kid[OF shT]) simp
    have distC: "distinct (addrs (Sk ca cks))" using distT unfolding distinct_addrs_decomp by blast
    have hC: "height (Sk ca cks) \<le> f"
      using height_kid[of "Sk ca cks" "L @ Sk ca cks # R" a] hT' by simp
    have ca: "ca < length (nodes t)" using shC by simp
    have ci: "idx (Children ?n) (j + 1) = Inr (Some ca)"
      unfolding ch ks using m(2) lenL by (simp add: idx_def nth_append flip: m(2))
    let ?cn = "nodes t ! ca"
    have unf: "insertNonFull (Suc (Suc f)) t (Some a) k v =
        (if Node.Size ?cn = MaxKeys ?cn then
           andThen (splitChild (Suc f) t (Some a) (j + 1)) (\<lambda>t.
           andThen (rd t (Some a)) (\<lambda>n.
           andThen (idx (Keys n) (j + 1)) (\<lambda>k'.
           let i = (if sint (Comparator t k' k) < 0 then j + 1 + 1 else j + 1) in
           andThen (idx (Children n) i) (\<lambda>c.
           insertNonFull (Suc f) t c k v))))
         else insertNonFull (Suc f) t (Some ca) k v)"
      using a False j(1) ci ca
      by (subst insertNonFull.simps) (simp add: Let_def del: insertNonFull.simps)
    have sp: "scanPos (Comparator t) (Keys ?n) k = m"
      by (rule scanPos_eq[where cmp = "Comparator t" and ks = "Keys ?n" and k = k and m = m,
            OF scan])
    have chm: "Children ?n ! m = Some ca"
      unfolding ch ks using lenL by (simp add: nth_append)
    have sunf: "insertNonFullSpec (Suc (Suc f)) t a k v =
        (if Node.Size ?cn = MaxKeys ?cn then
           (if sint (Comparator t (Keys (nodes (splitSpec t a m) ! a) ! m) k) < 0
            then insertNonFullSpec (Suc f) (splitSpec t a m) (length (nodes t)) k v
            else insertNonFullSpec (Suc f) (splitSpec t a m) ca k v)
         else insertNonFullSpec (Suc f) t ca k v)"
      by (subst insertNonFullSpec.simps) (simp add: Let_def False sp chm)
    show ?thesis
    proof (cases "Node.Size ?cn = MaxKeys ?cn")
      case nf: False
      from Suc.IH[OF shC distC hC d] obtain t' C' where
        r: "insertNonFull (Suc f) t (Some ca) k v = Inr t'" and g: "grown t (Sk ca cks) t' C'"
        and e: "entries t' C' = entries t (Sk ca cks) + {#(k, v)#}"
        and p: "placed t' k v C'"
        and x: "t' = insertNonFullSpec (Suc f) t (root (Sk ca cks)) k v" by auto
      have x': "t' = insertNonFullSpec (Suc (Suc f)) t (root T) k v"
        unfolding T using sunf nf x by simp
      note gd = grown_descend[OF shT distT g e]
      have cp: "childPos (Comparator t) (Keys ?n) k (length L)"
        unfolding lenL by (rule childPos_scan[where cmp = "Comparator t" and ks = "Keys ?n" and k = k and m = m, OF scan])
      note pl = placed_descend[OF a distT g False cp p]
      have "insertNonFull (Suc (Suc f)) t (Some (root T)) k v = Inr t'"
        unfolding T using unf nf r by (simp del: insertNonFull.simps)
      then show ?thesis using gd pl x' unfolding T ks by blast
    next
      case full: True
      have fullK: "length (Keys ?cn) = nat (2 * Degree t - 1)"
      proof -
        have "int (length (Keys ?cn)) = 2 * Degree t - 1" using shC full by simp
        then show ?thesis by linarith
      qed
      let ?D = "nat (Degree t)"
      define t1 where "t1 = splitSpec t a (length L)"
      define C1 C2 where "C1 = Sk ca (take ?D cks)" and "C2 = Sk (length (nodes t)) (drop ?D cks)"
      let ?T1 = "Sk a (L @ C1 # C2 # R)"
      have sp: "splitChild (Suc f) t (Some a) (j + 1) = Inr t1"
        using splitChild_shaped[OF shT distT fullK d hT'] lenL m(2) by (simp add: t1_def)
      note sk = split_skeleton[OF shT distT fullK d, folded t1_def C1_def C2_def]
      have g1: "grown t (Sk a (L @ Sk ca cks # R)) t1 ?T1"
        using split_grown[OF shT distT fullK d] by (simp add: t1_def C1_def C2_def)
      have d1: "1 \<le> Degree t1" using d by (simp add: t1_def)
      have cmp1: "Comparator t1 = Comparator t" by (simp add: t1_def)
      have a1: "a < length (nodes t1)" using a by (simp add: t1_def)
      let ?n1 = "nodes t1 ! a"
      have ch1: "Children ?n1 = map (\<lambda>k. Some (root k)) (L @ C1 # C2 # R)" using sk(1) by simp
      have kl1: "length (L @ C1 # C2 # R) = length (Keys ?n1) + 1"
        using sk(1) by (auto split: if_splits)
      have ki: "idx (Keys ?n1) (j + 1) = Inr (Keys ?n1 ! m)"
        using kl1 lenL m(2) by (simp add: idx_def flip: m(2))
      have k1: "Keys ?n1 = take m (Keys ?n) @ [Keys ?n1 ! m] @ drop m (Keys ?n)"
      proof -
        have ml: "m \<le> length (Keys ?n)" using m(1) kl by simp
        have "Keys ?n1 = take m (Keys ?n) @ [Keys (nodes t ! the (Children ?n ! m)) ! (nat (Degree t) - 1)]
            @ drop m (Keys ?n)"
          unfolding t1_def lenL by (simp add: splitSpec_parent[OF a])
        moreover from this have "Keys ?n1 ! m
            = Keys (nodes t ! the (Children ?n ! m)) ! (nat (Degree t) - 1)"
          using ml by (simp add: nth_append)
        ultimately show ?thesis by simp
      qed
      have nl1: "\<not> IsLeaf ?n1" using False unfolding t1_def by (simp add: splitSpec_parent[OF a])
      have c1i: "idx (Children ?n1) (j + 1) = Inr (Some (root C1))"
        unfolding ch1 using lenL m(2) by (simp add: idx_def nth_append flip: m(2))
      have c2i: "idx (Children ?n1) (j + 1 + 1) = Inr (Some (root C2))"
      proof -
        have e: "j + 1 + 1 = int (Suc m)" using m(2) by simp
        show ?thesis unfolding e ch1 by (subst idx_nat) (simp_all add: nth_append lenL)
      qed
      have shC1: "shaped t1 C1" and shC2: "shaped t1 C2"
        by (rule shaped_kid[OF sk(1)]; simp)+
      have eqT: "(L @ [C1]) @ C2 # R = L @ C1 # C2 # R" by simp
      have distT1: "distinct (addrs (Sk a (L @ C1 # (C2 # R))))" using sk(3) .
      have distT1': "distinct (addrs (Sk a ((L @ [C1]) @ C2 # R)))" using sk(3) unfolding eqT .
      have shT1': "shaped t1 (Sk a ((L @ [C1]) @ C2 # R))" using sk(1) unfolding eqT .
      have distC1: "distinct (addrs C1)" using distT1 unfolding distinct_addrs_decomp by blast
      have distC2: "distinct (addrs C2)" using distT1' unfolding distinct_addrs_decomp by blast
      have hT1: "height ?T1 \<le> Suc f" using sk(5) hT' by linarith
      have hC1: "height C1 \<le> f"
        using height_kid[of C1 "L @ C1 # C2 # R" a] hT1 by simp
      have hC2: "height C2 \<le> f"
        using height_kid[of C2 "L @ C1 # C2 # R" a] hT1 by simp
      show ?thesis
      proof (cases "sint (Comparator t (Keys ?n1 ! m) k) < 0")
        case right: True
        from Suc.IH[OF shC2 distC2 hC2 d1] obtain t2 C2' where
          r: "insertNonFull (Suc f) t1 (Some (root C2)) k v = Inr t2" and g: "grown t1 C2 t2 C2'"
          and e: "entries t2 C2' = entries t1 C2 + {#(k, v)#}"
          and p: "placed t2 k v C2'"
          and x: "t2 = insertNonFullSpec (Suc f) t1 (root C2) k v" by auto
        have x': "t2 = insertNonFullSpec (Suc (Suc f)) t (root T) k v"
          unfolding T using sunf full x right by (simp add: t1_def lenL C2_def)
        note gd = grown_descend[OF shT1' distT1' g e]
        have cp: "childPos (Comparator t1) (Keys ?n1) k (length (L @ [C1]))"
          unfolding cmp1 using childPos_split_right[where cmp = "Comparator t" and ks = "Keys ?n" and k = k and m = m
              and x = "Keys ?n1 ! m", OF scan right] k1 lenL by simp
        note pl = placed_descend[OF a1 distT1' g nl1 cp p]
        have g2: "grown t (Sk a (L @ Sk ca cks # R)) t2 (Sk a ((L @ [C1]) @ C2' # R))"
          by (rule grown_trans[OF g1 gd(1)[unfolded eqT]])
        have e2: "entries t2 (Sk a ((L @ [C1]) @ C2' # R))
                  = entries t (Sk a (L @ Sk ca cks # R)) + {#(k, v)#}"
          using gd(2) sk(2) unfolding eqT by (simp only:)
        have "insertNonFull (Suc (Suc f)) t (Some (root T)) k v = Inr t2"
          unfolding T using unf full sp a1 ki right c2i r
          by (simp del: insertNonFull.simps add: cmp1)
        then show ?thesis using g2 e2 pl x' unfolding T ks by blast
      next
        case left: False
        from Suc.IH[OF shC1 distC1 hC1 d1] obtain t2 C1' where
          r: "insertNonFull (Suc f) t1 (Some (root C1)) k v = Inr t2" and g: "grown t1 C1 t2 C1'"
          and e: "entries t2 C1' = entries t1 C1 + {#(k, v)#}"
          and p: "placed t2 k v C1'"
          and x: "t2 = insertNonFullSpec (Suc f) t1 (root C1) k v" by auto
        have x': "t2 = insertNonFullSpec (Suc (Suc f)) t (root T) k v"
          unfolding T using sunf full x left by (simp add: t1_def lenL C1_def)
        note gd = grown_descend[OF sk(1) distT1 g e]
        have cp: "childPos (Comparator t1) (Keys ?n1) k (length L)"
          unfolding cmp1 using childPos_split_left[where cmp = "Comparator t" and ks = "Keys ?n" and k = k and m = m
              and x = "Keys ?n1 ! m", OF scan left] k1 lenL by simp
        note pl = placed_descend[OF a1 distT1 g nl1 cp p]
        have g2: "grown t (Sk a (L @ Sk ca cks # R)) t2 (Sk a (L @ C1' # C2 # R))"
          by (rule grown_trans[OF g1 gd(1)])
        have e2: "entries t2 (Sk a (L @ C1' # C2 # R))
                  = entries t (Sk a (L @ Sk ca cks # R)) + {#(k, v)#}"
          using gd(2) sk(2) by (simp only:)
        have "insertNonFull (Suc (Suc f)) t (Some (root T)) k v = Inr t2"
          unfolding T using unf full sp a1 ki left c1i r
          by (simp del: insertNonFull.simps add: cmp1)
        then show ?thesis using g2 e2 pl x' unfolding T ks by blast
      qed
    qed
  qed
qed

lemma shaped_nodes_cong:
  "shaped t T \<Longrightarrow> nodes t' = nodes t \<Longrightarrow> Degree t' = Degree t \<Longrightarrow> shaped t' T"
  by (rule shaped_frame) (auto dest: set_addrs_lt)

lemma entries_nodes_cong: "nodes t' = nodes t \<Longrightarrow> entries t' T = entries t T"
  by (rule entries_frame) simp

lemma height_single: "height (Sk a [T]) = Suc (height T)"
  by (simp add: height.simps)

lemma Insert_grows:
  fixes t :: "'v Tree"
  assumes root: "Root t = Some (root T)" and sh: "shaped t T" and dist: "distinct (addrs T)"
    and d: "1 \<le> Degree t" and fuel: "height T + 2 \<le> fuel"
  shows "\<exists>t' T'. Insert fuel t k v = Inr t' \<and> Tree.Size t' = Tree.Size t + 1
           \<and> Root t' = Some (root T') \<and> shaped t' T' \<and> distinct (addrs T')
           \<and> entries t' T' = entries t T + {#(k, v)#} \<and> placed t' k v T'
           \<and> t' = InsertSpec fuel t k v"
proof -
  obtain f where f: "fuel = Suc f" "height T + 1 \<le> f" using fuel by (cases fuel) auto
  obtain r cks where T: "T = Sk r cks" by (cases T)
  let ?rn = "nodes t ! r"
  have r: "r < length (nodes t)" using sh unfolding T by simp
  have rt: "Root t = Some r" using root unfolding T by simp
  have ci0: "checkInvariants fuel t (Some r) = Inr ()"
    using checkInvariants_shaped[OF sh, of fuel] fuel unfolding T by simp
  have finish: "\<exists>t' T'. andThen (insertNonFull fuel s (Root s) k v) (\<lambda>t.
        let t = t\<lparr>Tree.Size := Tree.Size t + 1\<rparr> in
        andThen (checkInvariants fuel t (Root t)) (\<lambda>_. Inr t)) = Inr t'
      \<and> Tree.Size t' = Tree.Size s + 1 \<and> Root t' = Some (root T') \<and> shaped t' T'
      \<and> distinct (addrs T') \<and> entries t' T' = entries s S + {#(k, v)#}
      \<and> placed t' k v T'
      \<and> t' = (insertNonFullSpec fuel s (root S) k v)\<lparr>Tree.Size := Tree.Size s + 1\<rparr>"
    if s: "Root s = Some (root S)" "shaped s S" "distinct (addrs S)" "1 \<le> Degree s"
      "height S \<le> f" for s :: "'v Tree" and S
  proof -
    from insertNonFull_grows[OF s(2,3,5,4), of k v] obtain t' T' where
      run: "insertNonFull fuel s (Some (root S)) k v = Inr t'" and g: "grown s S t' T'"
      and e: "entries t' T' = entries s S + {#(k, v)#}" and p: "placed t' k v T'"
      and x: "t' = insertNonFullSpec fuel s (root S) k v"
      unfolding f(1) by blast
    define t'' where "t'' = t'\<lparr>Tree.Size := Tree.Size t' + 1\<rparr>"
    have g': "shaped t' T'" "root T' = root S" "distinct (addrs T')" "height T' \<le> height S"
      using g unfolding grown_def by blast+
    have sh'': "shaped t'' T'"
      by (rule shaped_nodes_cong[OF g'(1)]) (simp_all add: t''_def)
    have rt'': "Root t'' = Some (root T')"
      using grown_fields(1)[OF g] s(1) g'(2) by (simp add: t''_def)
    have "height T' \<le> fuel" using g'(4) s(5) f(1) by linarith
    from checkInvariants_shaped[OF sh'' this]
    have ci: "checkInvariants fuel t'' (Root t'') = Inr ()" unfolding rt'' .
    have sz: "Tree.Size t'' = Tree.Size s + 1"
      using grown_fields(3)[OF g] by (simp add: t''_def)
    have e'': "entries t'' T' = entries s S + {#(k, v)#}"
      using e entries_nodes_cong[of t'' t' T'] by (simp add: t''_def)
    have "andThen (insertNonFull fuel s (Root s) k v) (\<lambda>t.
        let t = t\<lparr>Tree.Size := Tree.Size t + 1\<rparr> in
        andThen (checkInvariants fuel t (Root t)) (\<lambda>_. Inr t)) = Inr t''"
      using run ci[unfolded rt''] rt'' unfolding s(1) by (simp add: Let_def t''_def)
    moreover have "placed t'' k v T'"
      using p placed_nodes_cong[of t'' t' k v T'] by (simp add: t''_def)
    moreover have "t'' = (insertNonFullSpec fuel s (root S) k v)\<lparr>Tree.Size := Tree.Size s + 1\<rparr>"
      using x grown_fields(3)[OF g] by (simp add: t''_def)
    ultimately show ?thesis using sz rt'' sh'' g'(3) e'' by blast
  qed
  show ?thesis
  proof (cases "Node.Size ?rn = MaxKeys ?rn")
    case False
    have hT: "height T \<le> f" using f(2) by simp
    from finish[OF root sh dist d hT] obtain t' T' where
      run: "andThen (insertNonFull fuel t (Root t) k v) (\<lambda>t.
        let t = t\<lparr>Tree.Size := Tree.Size t + 1\<rparr> in
        andThen (checkInvariants fuel t (Root t)) (\<lambda>_. Inr t)) = Inr t'"
      and post: "Tree.Size t' = Tree.Size t + 1" "Root t' = Some (root T')" "shaped t' T'"
        "distinct (addrs T')" "entries t' T' = entries t T + {#(k, v)#}" "placed t' k v T'"
        "t' = (insertNonFullSpec fuel t (root T) k v)\<lparr>Tree.Size := Tree.Size t + 1\<rparr>"
        by blast
    have "InsertSpec fuel t k v
        = (insertNonFullSpec fuel t (root T) k v)\<lparr>Tree.Size := Tree.Size t + 1\<rparr>"
      using rt False unfolding T by (simp add: InsertSpec_def Let_def)
    with post(7) have x: "t' = InsertSpec fuel t k v" by simp
    have "Insert fuel t k v = Inr t'"
      unfolding Insert_def using rt ci0 r False run by (simp add: rt del: insertNonFull.simps)
    then show ?thesis using post(1-6) x by blast
  next
    case True
    let ?nr = "length (nodes t)"
    define NR :: "'v Node" where "NR = \<lparr>Keys = [], Children = [Some r], IsLeaf = False, Parent = None,
       Node.Size = 0, MaxKeys = 2 * Degree t - 1, MinKeys = Degree t - 1, Values = []\<rparr>"
    define t0 where "t0 = t\<lparr>nodes := (nodes t @ [NR])[r := (nodes t ! r)\<lparr>Parent := Some ?nr\<rparr>]\<rparr>"
    have n0: "nodes t0 ! ?nr = NR" "length (nodes t0) = Suc ?nr" "Degree t0 = Degree t"
      using r by (simp_all add: t0_def nth_list_update)
    have old0: "a < length (nodes t0) \<and> dataEq (nodes t0 ! a) (nodes t ! a)" if "a \<in> set (addrs T)" for a
      using set_addrs_lt[OF sh that]
      by (cases "a = r") (simp_all add: t0_def nth_list_update nth_append)
    have shT0: "shaped t0 T" by (rule shaped_frame[OF sh n0(3)]) (rule old0)
    have eT0: "entries t0 T = entries t T" by (rule entries_frame) (use old0 in blast)
    let ?P = "Sk ?nr ([] @ Sk r cks # [])"
    have shP: "shaped t0 ?P"
      using shT0 n0 d unfolding T by (simp add: NR_def)
    have fresh: "?nr \<notin> set (addrs T)" using set_addrs_lt[OF sh] by blast
    have distP: "distinct (addrs ?P)" using dist fresh unfolding T by simp
    have fullK: "length (Keys (nodes t0 ! r)) = nat (2 * Degree t0 - 1)"
    proof -
      have "Keys (nodes t0 ! r) = Keys ?rn" using r by (simp add: t0_def)
      moreover have "int (length (Keys ?rn)) = 2 * Degree t - 1" using sh True unfolding T by simp
      ultimately show ?thesis using n0(3) by simp
    qed
    have d0: "1 \<le> Degree t0" using d n0(3) by simp
    have hP: "height ?P \<le> fuel" using f unfolding T by (simp add: height_single)
    define t1 where "t1 = splitSpec t0 ?nr 0"
    have sp: "splitChild fuel t0 (Some ?nr) 0 = Inr t1"
      using splitChild_shaped[OF shP distP fullK d0 hP] by (simp add: t1_def)
    note sk = split_skeleton[OF shP distP fullK d0, simplified list.size, folded t1_def]
    define T1 where "T1 = Sk ?nr ([] @ Sk r (take (nat (Degree t0)) cks)
        # Sk (length (nodes t0)) (drop (nat (Degree t0)) cks) # [])"
    define t2 where "t2 = t1\<lparr>Root := Some ?nr, Height := Height t1 + 1\<rparr>"
    have sh2: "shaped t2 T1"
      by (rule shaped_nodes_cong[OF sk(1)[folded T1_def]]) (simp_all add: t2_def)
    have rt2: "Root t2 = Some (root T1)" by (simp add: t2_def T1_def)
    have dist2: "distinct (addrs T1)" using sk(3) unfolding T1_def .
    have d2: "1 \<le> Degree t2" using d0 by (simp add: t2_def t1_def)
    have h2: "height T1 \<le> f"
    proof -
      have "height T1 \<le> height ?P" using sk(5) unfolding T1_def .
      then show ?thesis using f(2) unfolding T by (simp add: height_single)
    qed
    have e2: "entries t2 T1 = entries t T"
    proof -
      have "entries t2 T1 = entries t1 T1" by (rule entries_nodes_cong) (simp add: t2_def)
      also have "\<dots> = entries t0 ?P" using sk(2) unfolding T1_def .
      also have "\<dots> = entries t0 T" unfolding T by (simp add: n0 NR_def)
      finally show ?thesis using eT0 by simp
    qed
    from finish[OF rt2 sh2 dist2 d2 h2] obtain t' T' where
      run: "andThen (insertNonFull fuel t2 (Root t2) k v) (\<lambda>t.
        let t = t\<lparr>Tree.Size := Tree.Size t + 1\<rparr> in
        andThen (checkInvariants fuel t (Root t)) (\<lambda>_. Inr t)) = Inr t'"
      and post: "Tree.Size t' = Tree.Size t2 + 1" "Root t' = Some (root T')" "shaped t' T'"
        "distinct (addrs T')" "entries t' T' = entries t2 T1 + {#(k, v)#}" "placed t' k v T'"
        "t' = (insertNonFullSpec fuel t2 (root T1) k v)\<lparr>Tree.Size := Tree.Size t2 + 1\<rparr>"
        by blast
    have sz2: "Tree.Size t2 = Tree.Size t" by (simp add: t2_def t1_def t0_def)
    have st: "t\<lparr>nodes := (nodes t @ [NR])[r := ((nodes t @ [NR]) ! r)\<lparr>Parent := Some ?nr\<rparr>]\<rparr> = t0"
      using r by (simp add: t0_def nth_append)
    have "Insert fuel t k v = Inr t'"
      unfolding Insert_def using rt ci0 r True run sp
      by (simp add: alloc_def NR_def[symmetric] st t2_def[symmetric]
          del: insertNonFull.simps)
    moreover have "t' = InsertSpec fuel t k v"
    proof -
      have h: "Height t1 = Height t" by (simp add: t1_def splitSpec_def Let_def t0_def)
      have "InsertSpec fuel t k v
          = (insertNonFullSpec fuel t2 (length (nodes t)) k v)\<lparr>Tree.Size := Tree.Size t + 1\<rparr>"
        using rt True h
        by (simp add: InsertSpec_def Let_def NR_def[symmetric] t0_def[symmetric]
            t1_def[symmetric] t2_def)
      then show ?thesis using post(7) sz2 by (simp add: T1_def)
    qed
    ultimately show ?thesis using post(1-6) sz2 e2 by auto
  qed
qed

text \<open>The scan position is behind the keys equal to the inserted one.\<close>

lemma scanPos_examples:
  "scanPos (\<lambda>a b. a - b) [10, 20, 20, 30] 20 = 3"
  "scanPos (\<lambda>a b. a - b) [10, 20, 20, 30] 5 = 0"
  "scanPos (\<lambda>a b. a - b) [10, 20, 20, 30] 40 = 4"
  "scanPos (\<lambda>a b. a - b) [] 40 = 0"
  by code_simp+

text \<open>A second 20 in the example tree goes to the front of the right leaf; a store that has
  it at the end of that leaf is not one that \<open>placed\<close> accepts.\<close>

lemma placed_examples:
  "andThen (Insert 4 builtTree 20 None) (\<lambda>t'.
     Inr (map Keys (nodes t'), placed t' 20 None (Sk 1 [Sk 0 [], Sk 2 []])))
   = Inr ([[10], [20], [20, 30, 40]], True)"
  "\<not> placed (builtTree\<lparr>nodes := (nodes builtTree)[2 := (nodes builtTree ! 2)\<lparr>Keys := [30, 40, 20],
        Values := [None, None, None], Node.Size := 3\<rparr>]\<rparr>) 20 None (Sk 1 [Sk 0 [], Sk 2 []])"
  by code_simp+

text \<open>When the split of a full child promotes a key equal to the inserted one, the entry
  goes into the child left of the promoted key, behind the equal keys there.\<close>

lemma Insert_duplicate_of_median:
  "andThen (Insert 4 fullLeafTree 20 (Some ())) (\<lambda>t'.
     Inr (map (\<lambda>n. (Keys n, Values n, Children n)) (nodes t'),
          t' = InsertSpec 4 fullLeafTree 20 (Some ())))
   = Inr ([([20, 50], [None, None], [Some 1, Some 3, Some 2]),
           ([20, 20], [None, Some ()], []), ([60], [None], []), ([20], [None], [])], True)"
  by code_simp

section \<open>Results\<close>

subsection \<open>Deleting an absent key\<close>

text \<open>
  C1. The claim: for a key that is not in the tree, \<^verbatim>\<open>Delete\<close> leaves the tree unchanged,
  \<^verbatim>\<open>Tree.Size\<close> included. \<^verbatim>\<open>Delete\<close> decrements \<^verbatim>\<open>Tree.Size\<close> on every call that finds a
  non-nil root, whether or not the key was found. In a tree of degree 2 that holds the
  single key 1, key 2 is absent (\<^verbatim>\<open>Search\<close> reports not-found); \<^verbatim>\<open>Delete(2)\<close> leaves the nodes
  as they were and takes \<^verbatim>\<open>Tree.Size\<close> from 1 to 0.
\<close>

theorem Delete_absent_key_decrements_Size:
  "andThen (NewTree 2) (\<lambda>t0.
   andThen (Insert 5 t0 1 (Some ())) (\<lambda>t1.
   andThen (Search 5 t1 2) (\<lambda>absent.
   andThen (Delete 5 t1 2) (\<lambda>t2.
   Inr (absent, Tree.Size t1, Tree.Size t2, nodes t2 = nodes t1, Height t2 = Height t1)))))
   = Inr ((None, False), 1, 0, True, True)"
  by code_simp

subsection \<open>Deleting a key of an internal node whose two children are minimal\<close>

text \<open>
  C2. The claim: when the key is found in an internal node whose children on both sides
  have \<^verbatim>\<open>MinKeys\<close> keys, the children are merged and the key is deleted from the merged node,
  so that it is gone after \<^verbatim>\<open>Delete\<close>. In the merge case \<^verbatim>\<open>deleteInternal\<close> calls
  \<^verbatim>\<open>mergeChildren\<close> and returns: the key has moved down into the merged node and stays there.
  With degree 2, after inserting 10, 20, 30, 40 and deleting 40 the root holds 20 between
  the leaves [10] and [30], both of size \<^verbatim>\<open>MinKeys\<close>; after \<^verbatim>\<open>Delete(20)\<close>, \<^verbatim>\<open>Search(20)\<close> still finds
  the entry.
\<close>

theorem Delete_merge_case_keeps_key:
  "andThen (NewTree 2) (\<lambda>t0.
   andThen (insertAll 5 t0 [(10, Some 1), (20, Some 2), (30, Some 3), (40, Some (4::nat))]) (\<lambda>t1.
   andThen (Delete 5 t1 40) (\<lambda>t2.
   andThen (rd t2 (Root t2)) (\<lambda>root.
   andThen (idx (Children root) 0) (\<lambda>l. andThen (rd t2 l) (\<lambda>left.
   andThen (idx (Children root) 1) (\<lambda>r. andThen (rd t2 r) (\<lambda>right.
   andThen (Delete 5 t2 20) (\<lambda>t3.
   andThen (Search 5 t3 20) (\<lambda>found.
   Inr (Keys root, IsLeaf root, Keys left, Node.Size left = MinKeys left,
        Keys right, Node.Size right = MinKeys right, found)))))))))))
   = Inr ([20], False, [10], True, [30], True, (Some 2, True))"
  by code_simp

subsection \<open>The size invariant\<close>

text \<open>
  C3. The claim: after every completed \<^verbatim>\<open>Insert\<close> or \<^verbatim>\<open>Delete\<close>, \<^verbatim>\<open>Tree.Size\<close> is the sum of the
  \<^verbatim>\<open>Size\<close> fields of the nodes reachable from the root. After \<^verbatim>\<open>Insert(1)\<close> and \<^verbatim>\<open>Delete(2)\<close>
  on a fresh tree of degree 2, \<^verbatim>\<open>Tree.Size\<close> is 0 and the sum is 1.
\<close>

theorem Size_differs_from_sum_after_Delete:
  "andThen (NewTree 2) (\<lambda>t0.
   andThen (Insert 5 t0 1 (Some ())) (\<lambda>t1.
   andThen (Delete 5 t1 2) (\<lambda>t2.
   andThen (sumNodeSizes 5 t2 (Root t2)) (\<lambda>total.
   Inr (Tree.Size t2, total)))))
   = Inr (0, 1)"
  by code_simp

subsection \<open>Cardinality after insertions\<close>

text \<open>
  C4. The claim: after inserting N pairs into a fresh tree, \<^verbatim>\<open>Tree.Size\<close> is N and every
  inserted key is found by \<^verbatim>\<open>Search\<close>. The default comparator is \<^verbatim>\<open>a - b\<close> on machine integers,
  which wraps around: for the keys 0, \<open>3 * 2 ^ 61\<close> and \<open>- (2 ^ 62)\<close> it orders
  \<open>0 < 3 * 2 ^ 61 < - (2 ^ 62) < 0\<close>. The three keys are inserted into one leaf in that
  order, and \<^verbatim>\<open>Search\<close> for the third stops at the first and reports not-found.
\<close>

theorem Search_misses_inserted_key:
  "andThen (NewTree 2) (\<lambda>t0.
   andThen (insertAll 5 t0
      [(0, Some 1), (6917529027641081856, Some 2), (- 4611686018427387904, Some (3::nat))]) (\<lambda>t1.
   andThen (rd t1 (Root t1)) (\<lambda>root.
   andThen (Search 5 t1 (- 4611686018427387904)) (\<lambda>found.
   Inr (Tree.Size t1, Keys root, found)))))
   = Inr (3, [0, 6917529027641081856, - 4611686018427387904], (None, False))"
  by code_simp

subsection \<open>Splitting a full child\<close>

text \<open>
  C5. Let the node at \<open>pa\<close> head a well-shaped subtree with distinct addresses, and let its
  child at position \<open>i\<close> be full (\<^verbatim>\<open>Size\<close> equal to \<^verbatim>\<open>MaxKeys\<close>, which is \<open>2 * Degree - 1\<close>).
  Then \<^verbatim>\<open>splitChild\<close> returns, with enough fuel for its assertions, and the tree it returns is
  \<open>splitSpec t pa i\<close>: the median key and value (local position \<open>Degree - 1\<close>) promoted into
  the parent at position \<open>i\<close>, a new sibling with the upper \<open>Degree - 1\<close> keys and values
  and, for an internal child, the upper \<open>Degree\<close> children re-parented to it, the child cut
  down to its lower \<open>Degree - 1\<close> keys and values and lower \<open>Degree\<close> children, and the
  sibling placed in the parent's children right after the child.
\<close>

theorem splitChild_full_child:
  assumes sh: "shaped t (Sk pa pks)" and dist: "distinct (addrs (Sk pa pks))"
    and i: "i < length pks" and ca: "root (pks ! i) = ca"
    and full: "Node.Size (nodes t ! ca) = MaxKeys (nodes t ! ca)"
    and d: "2 \<le> Degree t"
    and fuel: "height (Sk pa pks) \<le> fuel"
  shows "splitChild fuel t (Some pa) (int i) = Inr (splitSpec t pa i)"
proof -
  obtain cks where C: "pks ! i = Sk ca cks" using ca by (cases "pks ! i") auto
  define L R where "L = take i pks" and "R = drop (Suc i) pks"
  have pks: "pks = L @ Sk ca cks # R" and len: "length L = i"
    using i C id_take_nth_drop[OF i] by (simp_all add: L_def R_def)
  have shC: "shaped t (Sk ca cks)" using sh unfolding pks by simp
  then have "int (length (Keys (nodes t ! ca))) = 2 * Degree t - 1"
    using full by simp
  then have "length (Keys (nodes t ! ca)) = nat (2 * Degree t - 1)"
    by linarith
  from splitChild_shaped[OF sh[unfolded pks] dist[unfolded pks] this _ fuel[unfolded pks]] d
  show ?thesis by (simp add: len)
qed

theorem splitChild_full_child_witness:
  "shaped threeLevelTree threeLevelSkel \<and> distinct (addrs threeLevelSkel)
   \<and> Node.Size (nodes threeLevelTree ! 1) = MaxKeys (nodes threeLevelTree ! 1)
   \<and> splitChild 3 threeLevelTree (Some 0) 0 = Inr (splitSpec threeLevelTree 0 0)
   \<and> map (\<lambda>n. (Keys n, Children n, Parent n)) (nodes (splitSpec threeLevelTree 0 0))
     = [([20, 50], [Some 1, Some 9, Some 2], None),
        ([10], [Some 3, Some 4], Some 0),
        ([70], [Some 7, Some 8], Some 0),
        ([5], [], Some 1), ([15], [], Some 1), ([25], [], Some 9), ([35], [], Some 9),
        ([60], [], Some 2), ([80], [], Some 2),
        ([30], [Some 5, Some 6], Some 0)]"
proof -
  have sh: "shaped threeLevelTree (Sk 0 [Sk 1 [Sk 3 [], Sk 4 [], Sk 5 [], Sk 6 []], Sk 2 [Sk 7 [], Sk 8 []]])"
    by (simp add: threeLevelTree_def innerOf_def leafOf_def)
  have dist: "distinct (addrs (Sk 0 [Sk 1 [Sk 3 [], Sk 4 [], Sk 5 [], Sk 6 []], Sk 2 [Sk 7 [], Sk 8 []]]))"
    by simp
  have full: "Node.Size (nodes threeLevelTree ! 1) = MaxKeys (nodes threeLevelTree ! 1)"
    by (simp add: threeLevelTree_def innerOf_def)
  have d: "2 \<le> Degree threeLevelTree" by (simp add: threeLevelTree_def)
  have h: "height (Sk 0 [Sk 1 [Sk 3 [], Sk 4 [], Sk 5 [], Sk 6 []], Sk 2 [Sk 7 [], Sk 8 []]]) \<le> 3"
    by (simp add: height.simps)
  have r: "map (\<lambda>n. (Keys n, Children n, Parent n)) (nodes (splitSpec threeLevelTree 0 0))
     = [([20, 50], [Some 1, Some 9, Some 2], None),
        ([10], [Some 3, Some 4], Some 0),
        ([70], [Some 7, Some 8], Some 0),
        ([5], [], Some 1), ([15], [], Some 1), ([25], [], Some 9), ([35], [], Some 9),
        ([60], [], Some 2), ([80], [], Some 2),
        ([30], [Some 5, Some 6], Some 0)]"
    by code_simp
  have s: "splitChild 3 threeLevelTree (Some 0) 0 = Inr (splitSpec threeLevelTree 0 0)"
    using splitChild_full_child[OF sh dist _ _ full d h, of 0] by simp
  show ?thesis
    unfolding threeLevelSkel_def
    by (rule conjI[OF sh conjI[OF dist conjI[OF full conjI[OF s r]]]])
qed

subsection \<open>Balancing after a deletion: borrowing from the left sibling\<close>

text \<open>
  C6. The claim: an underfull non-root node first borrows from its left sibling when that
  has spare keys, and for an internal node the sibling's last child moves across and is
  re-parented. \<^verbatim>\<open>borrowFromLeftSibling\<close> decrements the sibling's \<^verbatim>\<open>Size\<close> and then takes
  \<^verbatim>\<open>Children[Size]\<close>, which is the last child but one; the truncation that follows drops the
  last child. With degree 2, inserting 10, 9, ..., 1 builds the root [7] over the internal
  nodes [3, 5] (leaves [1, 2], [4], [6]) and [9] (leaves [8], [10]). \<^verbatim>\<open>Delete(10)\<close> merges the
  leaves of [9], which underflows and borrows from [3, 5]: it receives the leaf [4] (node 7),
  which also stays the last child of the sibling, and the leaf [6] (node 4) is no longer a
  child of any node, so that \<^verbatim>\<open>Search(6)\<close>, which found the entry before, reports not-found.
\<close>

theorem borrowFromLeftSibling_moves_wrong_child:
  "andThen (NewTree 2) (\<lambda>t0.
   andThen (insertAll 9 t0
      [(10, Some 10), (9, Some 9), (8, Some 8), (7, Some 7), (6, Some 6),
       (5, Some 5), (4, Some 4), (3, Some 3), (2, Some 2), (1, Some (1::nat))]) (\<lambda>t1.
   andThen (Search 9 t1 6) (\<lambda>before.
   andThen (Delete 9 t1 10) (\<lambda>t2.
   andThen (Search 9 t2 6) (\<lambda>after.
   Inr (Root t1, map (\<lambda>n. (Keys n, Children n)) (nodes t1),
        Root t2, map (\<lambda>n. (Keys n, Children n)) (nodes t2),
        before, after))))))
   = Inr (Some 5,
          [([1, 2], []), ([3, 5], [Some 0, Some 7, Some 4]), ([10], []), ([8], []), ([6], []),
           ([7], [Some 1, Some 6]), ([9], [Some 3, Some 2]), ([4], [])],
          Some 5,
          [([1, 2], []), ([3], [Some 0, Some 7]), ([], []), ([8, 9], []), ([6], []),
           ([5], [Some 1, Some 6]), ([7], [Some 7, Some 3]), ([4], [])],
          (Some 6, True), (None, False))"
  by code_simp

subsection \<open>Inserting a key that is already present\<close>

text \<open>
  C7. Let the tree be well shaped, with distinct node addresses and degree at least 2, and
  let the key \<open>k\<close> already be in it. Then \<^verbatim>\<open>Insert\<close> of \<open>k\<close> with any value returns, with
  enough fuel; \<^verbatim>\<open>Tree.Size\<close> has grown by one; the tree is well shaped again; and its entries
  are the old entries and the new pair: nothing was rejected, merged or overwritten, and the
  key now occurs at least twice. The new entry stands at the scan position: it is in a leaf
  reached from the root through children at scan positions, every key behind it in that
  leaf compares greater than \<open>k\<close>, and the key right before it does not (\<open>placed\<close>); and
  the tree returned is exactly the tree \<open>InsertSpec\<close> describes, with the entry put at the
  scan position of \<open>k\<close> among the keys of the leaf that the descent by scan positions ends in.
\<close>

theorem Insert_keeps_duplicate:
  fixes t :: "'v Tree"
  assumes root: "Root t = Some (root T)" and sh: "shaped t T" and dist: "distinct (addrs T)"
    and d: "2 \<le> Degree t" and fuel: "height T + 2 \<le> fuel"
    and present: "(k, v0) \<in># entries t T"
  shows "\<exists>t' T'. Insert fuel t k v = Inr t' \<and> Tree.Size t' = Tree.Size t + 1
           \<and> Root t' = Some (root T') \<and> shaped t' T' \<and> distinct (addrs T')
           \<and> entries t' T' = entries t T + {#(k, v)#}
           \<and> 2 \<le> count (image_mset fst (entries t' T')) k
           \<and> placed t' k v T'
           \<and> t' = InsertSpec fuel t k v"
proof -
  have d1: "1 \<le> Degree t" using d by simp
  from Insert_grows[OF root sh dist d1 fuel, of k v] obtain t' T' where
    r: "Insert fuel t k v = Inr t'" "Tree.Size t' = Tree.Size t + 1" "Root t' = Some (root T')"
      "shaped t' T'" "distinct (addrs T')" "placed t' k v T'"
      "t' = InsertSpec fuel t k v"
    and e: "entries t' T' = entries t T + {#(k, v)#}"
    by blast
  have "k \<in># image_mset fst (entries t T)" using present by force
  then have "1 \<le> count (image_mset fst (entries t T)) k" by simp
  then have "2 \<le> count (image_mset fst (entries t' T')) k" unfolding e by simp
  with r e show ?thesis by blast
qed

theorem Insert_keeps_duplicate_witness:
  "Root builtTree = Some (root (Sk 1 [Sk 0 [], Sk 2 []]))
   \<and> shaped builtTree (Sk 1 [Sk 0 [], Sk 2 []])
   \<and> distinct (addrs (Sk 1 [Sk 0 [], Sk 2 []]))
   \<and> 2 \<le> Degree builtTree
   \<and> height (Sk 1 [Sk 0 [], Sk 2 []]) + 2 \<le> 4
   \<and> (20, None) \<in># entries builtTree (Sk 1 [Sk 0 [], Sk 2 []])
   \<and> (\<exists>t' T'. Insert 4 builtTree 20 None = Inr t' \<and> Tree.Size t' = Tree.Size builtTree + 1
           \<and> Root t' = Some (root T') \<and> shaped t' T' \<and> distinct (addrs T')
           \<and> entries t' T' = entries builtTree (Sk 1 [Sk 0 [], Sk 2 []]) + {#(20, None)#}
           \<and> 2 \<le> count (image_mset fst (entries t' T')) 20
           \<and> placed t' 20 None T'
           \<and> t' = InsertSpec 4 builtTree 20 None)
   \<and> andThen (Insert 4 builtTree 20 None) (\<lambda>t'. Inr (Tree.Size t', map Keys (nodes t')))
       = Inr (5, [[10], [20], [20, 30, 40]])"
proof -
  let ?T = "Sk 1 [Sk 0 [], Sk 2 []]"
  have root: "Root builtTree = Some (root ?T)" by (simp add: builtTree_def)
  have sh: "shaped builtTree ?T" by (simp add: builtTree_def)
  have dist: "distinct (addrs ?T)" by simp
  have d: "2 \<le> Degree builtTree" by (simp add: builtTree_def)
  have h: "height ?T + 2 \<le> 4" by (simp add: height.simps)
  have p: "(20, None) \<in># entries builtTree ?T" by (simp add: builtTree_def)
  have ev: "andThen (Insert 4 builtTree 20 None) (\<lambda>t'. Inr (Tree.Size t', map Keys (nodes t')))
       = Inr (5, [[10], [20], [20, 30, 40]])" by code_simp
  note th = Insert_keeps_duplicate[OF root sh dist d h p, of None]
  show ?thesis
    by (rule conjI[OF root conjI[OF sh conjI[OF dist conjI[OF d conjI[OF h conjI[OF p conjI[OF th ev]]]]]]])
qed

subsection \<open>What \<^verbatim>\<open>ValidateTree\<close> checks\<close>




subsection \<open>Construction with an invalid degree\<close>

text \<open>
  C9. The claim: a degree below 2 is reported as a recoverable error result and not as
  an abort. \<^verbatim>\<open>NewTree\<close> has no error result: it calls \<^verbatim>\<open>Logger.Panicf\<close>, which logs and panics.
\<close>

theorem NewTree_degree_1_panics:
  "(NewTree 1 :: unit Tree res) = Inl (LoggerPanic ''degree must be at least 2'')"
  by (simp add: NewTree_def)

text \<open>
  C9, as amended: for every degree below 2, \<^verbatim>\<open>NewTree\<close> logs and panics with the message
  ``degree must be at least 2''; it returns no tree and no error value.
\<close>

theorem NewTree_invalid_degree_panics:
  "degree < 2 \<Longrightarrow> NewTree degree = Inl (LoggerPanic ''degree must be at least 2'')"
  by (simp add: NewTree_def)

theorem NewTree_invalid_degree_panics_witness:
  "(0::int) < 2 \<and> (NewTree 0 :: unit Tree res) = Inl (LoggerPanic ''degree must be at least 2'')"
  using NewTree_invalid_degree_panics [of 0] by simp

subsection \<open>Deleting from the empty tree\<close>

text \<open>
  C10. On a tree whose root is nil, \<^verbatim>\<open>Delete\<close> returns at once and the tree is the one it
  was given: the root stays nil, and \<^verbatim>\<open>Tree.Size\<close> and \<^verbatim>\<open>Height\<close> keep their values.
\<close>

theorem Delete_empty_tree_unchanged:
  "Root t = None \<Longrightarrow> Delete fuel t key = Inr t"
  by (simp add: Delete_def)

theorem Delete_empty_tree_unchanged_witness:
  "Root \<lparr>Root = None, Degree = 2, Size = 0, Height = 0, Comparator = (\<lambda>a b. a - b),
         nodes = ([] :: unit Node list)\<rparr> = None
   \<and> Delete 0 \<lparr>Root = None, Degree = 2, Size = 0, Height = 0, Comparator = (\<lambda>a b. a - b),
               nodes = ([] :: unit Node list)\<rparr> 7
     = Inr \<lparr>Root = None, Degree = 2, Size = 0, Height = 0, Comparator = (\<lambda>a b. a - b),
           nodes = ([] :: unit Node list)\<rparr>"
  using Delete_empty_tree_unchanged
    [of "\<lparr>Root = None, Degree = 2, Size = 0, Height = 0, Comparator = (\<lambda>a b. a - b),
         nodes = ([] :: unit Node list)\<rparr>" 0 7]
  by simp

end
